theory Spec2Isabelle
  imports Complex_Main
begin

section \<open>JavaScript strings and values\<close>

text \<open>
  A JavaScript string is a sequence of UTF-16 code units; \<open>length\<close>, \<open>match.index\<close> and
  the offsets of a segment count code units.  A code unit is modelled by its number.
\<close>

type_synonym js_string = "nat list"

definition js :: "string \<Rightarrow> js_string" where
  "js s = map of_char s"

text \<open>The values a caller may pass where a transcript is expected.\<close>

datatype js_value =
    JUndefined
  | JNull
  | JBoolean bool
  | JNumber int
  | JString js_string
  | JObject

text \<open>\<open>!v\<close> of the source: the falsy values are undefined, null, false, 0 and the empty string.\<close>

fun falsy :: "js_value \<Rightarrow> bool" where
  "falsy JUndefined = True"
| "falsy JNull = True"
| "falsy (JBoolean b) = (\<not> b)"
| "falsy (JNumber n) = (n = 0)"
| "falsy (JString s) = (s = [])"
| "falsy JObject = False"

text \<open>
  White space as \<open>String.prototype.trim\<close> and the class \<open>\s\<close> of a regular expression
  read it: the WhiteSpace and LineTerminator code points of ECMAScript.
\<close>

definition isWhiteSpace :: "nat \<Rightarrow> bool" where
  "isWhiteSpace c \<longleftrightarrow>
     c = 0x09 \<or> c = 0x0A \<or> c = 0x0B \<or> c = 0x0C \<or> c = 0x0D \<or> c = 0x20 \<or> c = 0xA0 \<or>
     c = 0x1680 \<or> (0x2000 \<le> c \<and> c \<le> 0x200A) \<or> c = 0x2028 \<or> c = 0x2029 \<or>
     c = 0x202F \<or> c = 0x205F \<or> c = 0x3000 \<or> c = 0xFEFF"

definition trim :: "js_string \<Rightarrow> js_string" where
  "trim s = rev (dropWhile isWhiteSpace (rev (dropWhile isWhiteSpace s)))"

text \<open>
  \<open>String.prototype.toLowerCase\<close>.  The letters A to Z go to a to z.  Outside ASCII the
  runtime follows the Unicode case tables; the two entries whose image holds an ASCII
  unit are kept (U+0130 becomes \<open>i\<close> followed by U+0307, the Kelvin sign U+212A becomes
  \<open>k\<close>), every other unit outside ASCII stays outside ASCII and is left as it is.
\<close>

definition lowerUnit :: "nat \<Rightarrow> js_string" where
  "lowerUnit c =
     (if 0x41 \<le> c \<and> c \<le> 0x5A then [c + 32]
      else if c = 0x130 then [0x69, 0x307]
      else if c = 0x212A then [0x6B]
      else [c])"

definition toLowerCase :: "js_string \<Rightarrow> js_string" where
  "toLowerCase s = concat (map lowerUnit s)"

section \<open>The keyword taxonomy\<close>

datatype category = Science | Social | Literature | Language

text \<open>\<open>Object.keys(KEYWORDS)\<close>: the keys in the order the object literal lists them.\<close>

definition categories :: "category list" where
  "categories = [Science, Social, Literature, Language]"

fun KEYWORDS :: "category \<Rightarrow> js_string list" where
  "KEYWORDS Science = map js
    [''experiment'', ''hypothesis'', ''observe'', ''predict'', ''measure'', ''test'', ''data'', ''result'',
     ''science'', ''scientist'', ''discover'', ''investigate'', ''analyze'', ''research'', ''study'',
     ''evidence'', ''theory'', ''fact'', ''prove'', ''conclusion'', ''question'', ''answer'', ''why'',
     ''how'', ''what'', ''when'', ''where'', ''because'', ''reason'', ''cause'', ''effect'', ''change'',
     ''grow'', ''plant'', ''animal'', ''nature'', ''weather'', ''water'', ''air'', ''earth'', ''space'',
     ''star'', ''planet'', ''moon'', ''sun'', ''light'', ''dark'', ''hot'', ''cold'', ''big'', ''small'',
     ''heavy'', ''light'', ''fast'', ''slow'', ''up'', ''down'', ''inside'', ''outside'', ''color'',
     ''shape'', ''size'', ''number'', ''count'', ''more'', ''less'', ''same'', ''different'']"
| "KEYWORDS Social = map js
    [''friend'', ''share'', ''help'', ''together'', ''feelings'', ''happy'', ''sad'', ''angry'', ''excited'',
     ''scared'', ''worried'', ''proud'', ''sorry'', ''thank'', ''please'', ''welcome'', ''hello'', ''goodbye'',
     ''play'', ''game'', ''fun'', ''laugh'', ''smile'', ''cry'', ''hug'', ''love'', ''care'', ''kind'',
     ''nice'', ''mean'', ''fair'', ''unfair'', ''right'', ''wrong'', ''good'', ''bad'', ''yes'', ''no'',
     ''maybe'', ''okay'', ''sure'', ''family'', ''mom'', ''dad'', ''parent'', ''brother'', ''sister'',
     ''baby'', ''child'', ''people'', ''person'', ''group'', ''team'', ''class'', ''school'', ''teacher'',
     ''student'', ''learn'', ''teach'', ''listen'', ''talk'', ''say'', ''tell'', ''ask'', ''answer'',
     ''understand'', ''know'', ''think'', ''remember'', ''forget'', ''want'', ''need'', ''like'', ''dislike'']"
| "KEYWORDS Literature = map js
    [''story'', ''character'', ''beginning'', ''ending'', ''imagine'', ''pretend'', ''make-believe'',
     ''fairy tale'', ''tale'', ''book'', ''read'', ''page'', ''chapter'', ''title'', ''author'', ''writer'',
     ''write'', ''draw'', ''picture'', ''illustration'', ''drawing'', ''art'', ''create'', ''make'',
     ''once upon a time'', ''once'', ''long ago'', ''happily ever after'', ''the end'', ''begin'',
     ''start'', ''finish'', ''end'', ''first'', ''last'', ''next'', ''then'', ''after'', ''before'',
     ''prince'', ''princess'', ''king'', ''queen'', ''castle'', ''dragon'', ''magic'', ''wizard'',
     ''witch'', ''fairy'', ''giant'', ''dwarf'', ''hero'', ''villain'', ''adventure'', ''journey'',
     ''travel'', ''visit'', ''go'', ''come'', ''arrive'', ''leave'', ''return'', ''home'', ''place'',
     ''where'', ''there'', ''here'', ''far'', ''near'', ''find'', ''lose'', ''search'', ''look'', ''see'',
     ''watch'', ''show'', ''hide'', ''appear'', ''disappear'', ''magic'', ''wish'', ''dream'', ''hope'']"
| "KEYWORDS Language = map js
    [''word'', ''sentence'', ''speak'', ''listen'', ''communicate'', ''talk'', ''say'', ''tell'',
     ''speech'', ''language'', ''voice'', ''sound'', ''noise'', ''quiet'', ''loud'', ''soft'',
     ''whisper'', ''shout'', ''yell'', ''call'', ''name'', ''label'', ''describe'', ''explain'',
     ''mean'', ''meaning'', ''understand'', ''comprehend'', ''know'', ''learn'', ''teach'',
     ''question'', ''ask'', ''answer'', ''reply'', ''respond'', ''conversation'', ''discuss'',
     ''chat'', ''talk'', ''speak'', ''say'', ''tell'', ''speech'', ''pronounce'', ''pronunciation'',
     ''letter'', ''alphabet'', ''read'', ''write'', ''spell'', ''spelling'', ''grammar'', ''noun'',
     ''verb'', ''adjective'', ''sentence'', ''phrase'', ''paragraph'', ''story'', ''book'',
     ''dictionary'', ''vocabulary'', ''word'', ''term'', ''expression'', ''idiom'', ''phrase'']"

declare KEYWORDS.simps [simp del]

section \<open>Counts and scores\<close>

record categoryCounts =
  science :: nat
  social :: nat
  literature :: nat
  language :: nat

record categoryScores =
  scienceTalk :: int
  socialTalk :: int
  literatureTalk :: int
  languageDevelopment :: int

definition maxPerCategory :: real where
  "maxPerCategory = 20"

text \<open>
  \<open>calculateScores\<close>.  \<open>Math.round\<close> rounds a half upwards, as \<open>round\<close> does.  A count is
  a whole number, so the exact quotient times 100 is a whole number too, and the rounding
  error of the double arithmetic never moves it to another integer.
\<close>

definition calculateScores :: "categoryCounts \<Rightarrow> categoryScores" where
  "calculateScores c =
     \<lparr> scienceTalk = min 100 (round ((real (science c) / maxPerCategory) * 100)),
       socialTalk = min 100 (round ((real (social c) / maxPerCategory) * 100)),
       literatureTalk = min 100 (round ((real (literature c) / maxPerCategory) * 100)),
       languageDevelopment = min 100 (round ((real (language c) / maxPerCategory) * 100)) \<rparr>"

section \<open>Regular expressions of the matcher\<close>

text \<open>
  The patterns the matcher builds have the flags \<open>gi\<close> and no flag \<open>u\<close>.  A word character
  of \<open>\b\<close> is then one of the ASCII letters, digits and the underscore, and two
  characters agree when their canonical forms agree: a to z are compared as A to Z, and
  a unit outside ASCII never agrees with an ASCII one.  The patterns of the taxonomy hold
  ASCII units only (lemma \<open>KEYWORDS_plain\<close>), so the canonical form of a unit outside
  ASCII, which the runtime takes from the Unicode tables, is left as the unit itself.
\<close>

definition isWordChar :: "nat \<Rightarrow> bool" where
  "isWordChar c \<longleftrightarrow>
     (0x30 \<le> c \<and> c \<le> 0x39) \<or> (0x41 \<le> c \<and> c \<le> 0x5A) \<or> c = 0x5F \<or> (0x61 \<le> c \<and> c \<le> 0x7A)"

definition canonicalize :: "nat \<Rightarrow> nat" where
  "canonicalize c = (if 0x61 \<le> c \<and> c \<le> 0x7A then c - 32 else c)"

text \<open>The assertion \<open>\b\<close> at index \<open>i\<close>: exactly one of the units before and at \<open>i\<close> is a word character.\<close>

definition isWordBoundary :: "js_string \<Rightarrow> nat \<Rightarrow> bool" where
  "isWordBoundary s i \<longleftrightarrow>
     (0 < i \<and> i - 1 < length s \<and> isWordChar (s ! (i - 1))) \<noteq> (i < length s \<and> isWordChar (s ! i))"

datatype atom = WordBoundary | Lit nat | SpacePlus

text \<open>The first alternative that succeeds, as backtracking finds it.\<close>

fun firstSome :: "'a option list \<Rightarrow> 'a option" where
  "firstSome [] = None"
| "firstSome (None # xs) = firstSome xs"
| "firstSome (Some x # xs) = Some x"

definition spaceRun :: "js_string \<Rightarrow> nat \<Rightarrow> nat" where
  "spaceRun s i = length (takeWhile isWhiteSpace (drop i s))"

text \<open>
  The backtracking matcher: \<open>matchAtoms p s i\<close> is the end index of the match of \<open>p\<close> that
  starts at index \<open>i\<close> of \<open>s\<close>.  \<open>\s+\<close> is greedy: it takes the whole run of white space
  first and gives units back one at a time while the rest of the pattern fails.
\<close>

fun matchAtoms :: "atom list \<Rightarrow> js_string \<Rightarrow> nat \<Rightarrow> nat option" where
  "matchAtoms [] s i = Some i"
| "matchAtoms (WordBoundary # p) s i = (if isWordBoundary s i then matchAtoms p s i else None)"
| "matchAtoms (Lit c # p) s i =
     (if i < length s \<and> canonicalize (s ! i) = canonicalize c then matchAtoms p s (Suc i) else None)"
| "matchAtoms (SpacePlus # p) s i =
     firstSome (map (\<lambda>k. matchAtoms p s (i + k)) (rev [1 ..< Suc (spaceRun s i)]))"

text \<open>
  \<open>RegExp.prototype.exec\<close> of a global pattern whose \<open>lastIndex\<close> is \<open>i\<close>: the first index
  from \<open>i\<close> on at which the pattern matches, with the end of that match; null when
  \<open>lastIndex\<close> is beyond the string or no index matches.
\<close>

function regexExec :: "atom list \<Rightarrow> js_string \<Rightarrow> nat \<Rightarrow> (nat \<times> nat) option" where
  "regexExec p s i =
     (if length s < i then None
      else case matchAtoms p s i of
             Some e \<Rightarrow> Some (i, e)
           | None \<Rightarrow> regexExec p s (Suc i))"
  by pat_completeness auto
termination
  by (relation "measure (\<lambda>(p, s, i). Suc (length s) - i)") auto

lemma firstSome_in: "firstSome xs = Some e \<Longrightarrow> Some e \<in> set xs"
  by (induction xs rule: firstSome.induct) auto

lemma matchAtoms_ge: "matchAtoms p s i = Some e \<Longrightarrow> i \<le> e"
proof (induction p arbitrary: i)
  case Nil
  then show ?case by simp
next
  case (Cons a p)
  show ?case
  proof (cases a)
    case WordBoundary
    with Cons show ?thesis by (auto split: if_splits)
  next
    case (Lit c)
    with Cons.prems have "matchAtoms p s (Suc i) = Some e" by (auto split: if_splits)
    from Cons.IH [OF this] show ?thesis by simp
  next
    case SpacePlus
    with Cons.prems obtain k where "matchAtoms p s (i + k) = Some e"
      by (auto dest!: firstSome_in)
    from Cons.IH [OF this] show ?thesis by simp
  qed
qed

lemma regexExec_bounds:
  "regexExec p s i = Some (j, e) \<Longrightarrow> i \<le> j \<and> j \<le> e \<and> j \<le> length s \<and> matchAtoms p s j = Some e"
proof (induction p s i rule: regexExec.induct)
  case (1 p s i)
  show ?case
  proof (cases "matchAtoms p s i")
    case None
    with "1.prems" have le: "\<not> length s < i" and "regexExec p s (Suc i) = Some (j, e)"
      by (auto split: if_splits)
    with "1.IH" [OF le None] show ?thesis by simp
  next
    case (Some e')
    with "1.prems" show ?thesis
      by (auto split: if_splits dest: matchAtoms_ge)
  qed
qed

text \<open>
  \<open>String.prototype.match\<close> with a global pattern: every match from \<open>lastIndex = 0\<close> on;
  after an empty match \<open>lastIndex\<close> moves one unit further.  The result is null when there
  is no match at all.
\<close>

function matchFrom :: "atom list \<Rightarrow> js_string \<Rightarrow> nat \<Rightarrow> (nat \<times> nat) list" where
  "matchFrom p s i =
     (case regexExec p s i of
        None \<Rightarrow> []
      | Some (j, e) \<Rightarrow> (j, e) # matchFrom p s (if e = j then Suc e else e))"
  by pat_completeness auto
termination
proof (relation "measure (\<lambda>(p, s, i). Suc (length s) - i)")
  show "wf (measure (\<lambda>(p :: atom list, s :: js_string, i). Suc (length s) - i))"
    by simp
next
  fix p :: "atom list" and s :: js_string and i :: nat and x2 :: "nat \<times> nat" and j e :: nat
  assume "regexExec p s i = Some x2" and "(j, e) = x2"
  then have "regexExec p s i = Some (j, e)" by simp
  from regexExec_bounds [OF this]
  show "((p, s, if e = j then Suc e else e), p, s, i) \<in> measure (\<lambda>(p, s, i). Suc (length s) - i)"
    by auto
qed

definition stringMatch :: "atom list \<Rightarrow> js_string \<Rightarrow> (nat \<times> nat) list option" where
  "stringMatch regex s = (case matchFrom regex s 0 of [] \<Rightarrow> None | m # ms \<Rightarrow> Some (m # ms))"

section \<open>The lexical matcher\<close>

text \<open>
  The pattern of a keyword.  Every character of a keyword is read as itself, and a
  character after a backslash (put there by the escaping of \<open>extractKeywordSegments\<close>) is
  read as itself too; in the pattern of a phrase every run of white space has been
  replaced by \<open>\s+\<close>.  No keyword of the taxonomy holds a character with another meaning
  in a pattern (lemma \<open>KEYWORDS_plain\<close>).
\<close>

fun wordAtoms :: "js_string \<Rightarrow> atom list" where
  "wordAtoms [] = []"
| "wordAtoms [c] = [Lit c]"
| "wordAtoms (c # d # cs) = (if c = 0x5C then Lit d # wordAtoms cs else Lit c # wordAtoms (d # cs))"

function phraseAtoms :: "js_string \<Rightarrow> atom list" where
  "phraseAtoms [] = []"
| "phraseAtoms (c # cs) =
     (if isWhiteSpace c then SpacePlus # phraseAtoms (dropWhile isWhiteSpace cs)
      else if c = 0x5C then (case cs of [] \<Rightarrow> [Lit c] | d # ds \<Rightarrow> Lit d # phraseAtoms ds)
      else Lit c # phraseAtoms cs)"
  by pat_completeness auto
termination
  by (relation "measure length") (auto simp: length_dropWhile_le less_Suc_eq_le)

text \<open>\<open>keyword.includes(' ')\<close>\<close>

definition includesSpace :: "js_string \<Rightarrow> bool" where
  "includesSpace keyword \<longleftrightarrow> 0x20 \<in> set keyword"

text \<open>The pattern of \<open>analyzeTranscript\<close>, built from the keyword as it is.\<close>

definition keywordRegExp :: "js_string \<Rightarrow> atom list" where
  "keywordRegExp keyword =
     (if includesSpace keyword then WordBoundary # phraseAtoms keyword @ [WordBoundary]
      else WordBoundary # wordAtoms keyword @ [WordBoundary])"

text \<open>\<open>keyword.replace(/[.*+?^${}()|[\]\\]/g, '\\$&')\<close>: a backslash before each syntax character.\<close>

definition syntaxChars :: "nat list" where
  "syntaxChars = js ''.*+?^${}()|[]'' @ [0x5C]"

definition escapeRegExp :: "js_string \<Rightarrow> js_string" where
  "escapeRegExp keyword = concat (map (\<lambda>c. if c \<in> set syntaxChars then [0x5C, c] else [c]) keyword)"

text \<open>The pattern of \<open>extractKeywordSegments\<close>, built from the escaped keyword.\<close>

definition escapedRegExp :: "js_string \<Rightarrow> atom list" where
  "escapedRegExp keyword =
     (let escapedKeyword = escapeRegExp keyword
      in if includesSpace keyword then WordBoundary # phraseAtoms escapedKeyword @ [WordBoundary]
         else WordBoundary # wordAtoms escapedKeyword @ [WordBoundary])"

definition zeroCounts :: categoryCounts where
  "zeroCounts = \<lparr> science = 0, social = 0, literature = 0, language = 0 \<rparr>"

text \<open>\<open>counts[category] += n\<close>\<close>

fun addCount :: "category \<Rightarrow> nat \<Rightarrow> categoryCounts \<Rightarrow> categoryCounts" where
  "addCount Science n c = c\<lparr> science := science c + n \<rparr>"
| "addCount Social n c = c\<lparr> social := social c + n \<rparr>"
| "addCount Literature n c = c\<lparr> literature := literature c + n \<rparr>"
| "addCount Language n c = c\<lparr> language := language c + n \<rparr>"

fun countOf :: "categoryCounts \<Rightarrow> category \<Rightarrow> nat" where
  "countOf c Science = science c"
| "countOf c Social = social c"
| "countOf c Literature = literature c"
| "countOf c Language = language c"

fun typeOf :: "js_value \<Rightarrow> string" where
  "typeOf JUndefined = ''undefined''"
| "typeOf JNull = ''object''"
| "typeOf (JBoolean b) = ''boolean''"
| "typeOf (JNumber n) = ''number''"
| "typeOf (JString s) = ''string''"
| "typeOf JObject = ''object''"

text \<open>
  The guard of both operations:
  \<open>!transcript || typeof transcript !== 'string' || transcript.trim().length === 0\<close>.
\<close>

definition blankTranscript :: "js_value \<Rightarrow> bool" where
  "blankTranscript transcript \<longleftrightarrow>
     falsy transcript \<or> typeOf transcript \<noteq> ''string'' \<or>
     (case transcript of JString t \<Rightarrow> length (trim t) = 0 | _ \<Rightarrow> False)"

text \<open>What one keyword adds to the count of its category: the number of its matches.\<close>

definition countKeyword :: "js_string \<Rightarrow> js_string \<Rightarrow> nat" where
  "countKeyword lowerTranscript keyword =
     (case stringMatch (keywordRegExp keyword) lowerTranscript of
        None \<Rightarrow> 0
      | Some matches \<Rightarrow> length matches)"

definition analyzeTranscript :: "js_value \<Rightarrow> categoryCounts" where
  "analyzeTranscript transcript =
     (if blankTranscript transcript then zeroCounts
      else case transcript of
        JString t \<Rightarrow>
          (let lowerTranscript = toLowerCase t
           in fold (\<lambda>category.
                 fold (\<lambda>keyword. addCount category (countKeyword lowerTranscript keyword))
                   (KEYWORDS category))
                categories zeroCounts)
      | _ \<Rightarrow> zeroCounts)"

record segment =
  segText :: js_string
  category :: category
  startIndex :: nat
  endIndex :: nat

text \<open>\<open>match[0]\<close>: the units of the transcript from the start to the end of the match.\<close>

definition slice :: "js_string \<Rightarrow> nat \<Rightarrow> nat \<Rightarrow> js_string" where
  "slice s i e = take (e - i) (drop i s)"

definition mkSegment :: "category \<Rightarrow> js_string \<Rightarrow> nat \<times> nat \<Rightarrow> segment" where
  "mkSegment c transcript m =
     \<lparr> segText = slice transcript (fst m) (snd m), category = c,
       startIndex = fst m, endIndex = fst m + length (slice transcript (fst m) (snd m)) \<rparr>"

text \<open>
  The loop \<open>while ((match = pattern.exec(transcript)) !== null)\<close>.  \<open>exec\<close> leaves \<open>lastIndex\<close>
  at the end of the match, so after an empty match the loop finds the same match again
  and never ends: the result is \<open>None\<close> then.
\<close>

partial_function (option) execLoop ::
    "atom list \<Rightarrow> category \<Rightarrow> js_string \<Rightarrow> nat \<Rightarrow> segment list \<Rightarrow> segment list option" where
  "execLoop pattern c transcript lastIndex segments =
     (case regexExec pattern transcript lastIndex of
        None \<Rightarrow> Some segments
      | Some m \<Rightarrow> execLoop pattern c transcript (snd m) (segments @ [mkSegment c transcript m]))"

fun forEachKeyword :: "category \<Rightarrow> js_string list \<Rightarrow> js_string \<Rightarrow> segment list \<Rightarrow> segment list option" where
  "forEachKeyword c [] transcript segments = Some segments"
| "forEachKeyword c (keyword # keywords) transcript segments =
     (case execLoop (escapedRegExp keyword) c transcript 0 segments of
        None \<Rightarrow> None
      | Some segments' \<Rightarrow> forEachKeyword c keywords transcript segments')"

fun forEachCategory :: "category list \<Rightarrow> js_string \<Rightarrow> segment list \<Rightarrow> segment list option" where
  "forEachCategory [] transcript segments = Some segments"
| "forEachCategory (c # cs) transcript segments =
     (case forEachKeyword c (KEYWORDS c) transcript segments of
        None \<Rightarrow> None
      | Some segments' \<Rightarrow> forEachCategory cs transcript segments')"

definition extractKeywordSegments :: "js_value \<Rightarrow> segment list option" where
  "extractKeywordSegments transcript =
     (if blankTranscript transcript then Some []
      else case transcript of
        JString t \<Rightarrow> forEachCategory categories t []
      | _ \<Rightarrow> Some [])"

section \<open>The controllers\<close>

text \<open>
  Both controllers hand the transcript of the recording to the same pipeline.

  Modelled from the spec: the modules \<open>lib/ragClassifier.js\<close> and \<open>lib/hybridScorer.js\<close>
  are not among the sources, so \<open>ragClassifier.classifyWithSegments\<close> and
  \<open>hybridScorer.combineScores\<close> are parameters, as is the environment variable
  \<open>RAG_ENABLED\<close>.  The classifier returns its scores and segments or fails as a whole
  (spec 4.4); what it throws is an object with a message, or null or undefined.  The
  scorer has no failure mode (spec 4.5): it returns scores for every input.
\<close>

datatype thrown = ThrownObject js_string | ThrownNullish

record ('s, 'r) ragResult =
  scores :: "'s option"
  segments :: "'r list option"

record ('s, 'r) env =
  RAG_ENABLED :: "js_string option"
  classifyWithSegments :: "js_string \<Rightarrow> thrown + ('s, 'r) ragResult"
  combineScores :: "'s option \<Rightarrow> categoryScores \<Rightarrow> categoryScores"

text \<open>
  The variables of a run and the fields of the response.  \<open>ragSegments\<close> is null or an
  array that holds segments of the classifier (\<open>Inl\<close>) or of the keyword matcher (\<open>Inr\<close>).
  \<open>classifierCalls\<close> records the transcripts handed to the classifier.
\<close>

record ('s, 'r) run =
  keywordCounts :: categoryCounts
  keywordScores :: categoryScores
  ragScores :: "'s option"
  ragSegments :: "('r + segment) list option"
  finalScores :: categoryScores
  classificationMethod :: string
  classifierCalls :: "js_string list"

text \<open>\<open>process.env.RAG_ENABLED?.toString().toLowerCase().trim() === 'true'\<close>\<close>

definition ragEnabled :: "('s, 'r) env \<Rightarrow> bool" where
  "ragEnabled e \<longleftrightarrow>
     (case RAG_ENABLED e of None \<Rightarrow> False | Some v \<Rightarrow> trim (toLowerCase v) = js ''true'')"

text \<open>\<open>transcript || ""\<close>, for a transcript that is a string, null or undefined.\<close>

definition orEmpty :: "js_string option \<Rightarrow> js_string" where
  "orEmpty transcript = (case transcript of None \<Rightarrow> [] | Some t \<Rightarrow> t)"

text \<open>The keyword analysis that opens the pipeline, and the initial values of the variables.\<close>

definition lexicalStep :: "js_string option \<Rightarrow> ('s, 'r) run" where
  "lexicalStep transcript =
     (let counts = analyzeTranscript (JString (orEmpty transcript));
          kwScores = calculateScores counts
      in \<lparr> keywordCounts = counts, keywordScores = kwScores, ragScores = None,
           ragSegments = None, finalScores = kwScores, classificationMethod = [],
           classifierCalls = [] \<rparr>)"

text \<open>
  The classification step.  The catch block reads \<open>ragError.message\<close>, which raises a
  TypeError when the thrown value is null or undefined; that error reaches the outer
  catch block of the controller, which answers with status 500.  The two controllers
  differ in the catch block: \<open>revaiController\<close> assigns \<open>finalScores\<close> again.
\<close>

definition classroomRagStep ::
    "('s, 'r) env \<Rightarrow> js_string option \<Rightarrow> ('s, 'r) run \<Rightarrow> nat + ('s, 'r) run" where
  "classroomRagStep e transcript r =
     (case transcript of
        None \<Rightarrow> Inr r
      | Some t \<Rightarrow>
          if ragEnabled e \<and> t \<noteq> [] \<and> 0 < length (trim t) then
            (case classifyWithSegments e t of
               Inr ragResult \<Rightarrow>
                 Inr (r\<lparr> ragScores := scores ragResult,
                         ragSegments := Some (map Inl (case segments ragResult of
                                                         None \<Rightarrow> [] | Some ss \<Rightarrow> ss)),
                         finalScores := combineScores e (scores ragResult) (keywordScores r),
                         classifierCalls := classifierCalls r @ [t] \<rparr>)
             | Inl (ThrownObject message) \<Rightarrow>
                 Inr (r\<lparr> ragScores := None, ragSegments := None,
                         classifierCalls := classifierCalls r @ [t] \<rparr>)
             | Inl ThrownNullish \<Rightarrow> Inl 500)
          else Inr r)"

definition revaiRagStep ::
    "('s, 'r) env \<Rightarrow> js_string option \<Rightarrow> ('s, 'r) run \<Rightarrow> nat + ('s, 'r) run" where
  "revaiRagStep e transcript r =
     (case transcript of
        None \<Rightarrow> Inr r
      | Some t \<Rightarrow>
          if ragEnabled e \<and> t \<noteq> [] \<and> 0 < length (trim t) then
            (case classifyWithSegments e t of
               Inr ragResult \<Rightarrow>
                 Inr (r\<lparr> ragScores := scores ragResult,
                         ragSegments := Some (map Inl (case segments ragResult of
                                                         None \<Rightarrow> [] | Some ss \<Rightarrow> ss)),
                         finalScores := combineScores e (scores ragResult) (keywordScores r),
                         classifierCalls := classifierCalls r @ [t] \<rparr>)
             | Inl (ThrownObject message) \<Rightarrow>
                 Inr (r\<lparr> finalScores := keywordScores r, ragScores := None, ragSegments := None,
                         classifierCalls := classifierCalls r @ [t] \<rparr>)
             | Inl ThrownNullish \<Rightarrow> Inl 500)
          else Inr r)"

text \<open>
  \<open>if (!ragSegments || ragSegments.length === 0) ragSegments = extractKeywordSegments(transcript || "")\<close>;
  \<open>None\<close> when \<open>extractKeywordSegments\<close> does not return.
\<close>

definition keywordFallback :: "js_string option \<Rightarrow> ('s, 'r) run \<Rightarrow> ('s, 'r) run option" where
  "keywordFallback transcript r =
     (if ragSegments r = None \<or> ragSegments r = Some [] then
        (case extractKeywordSegments (JString (orEmpty transcript)) of
           None \<Rightarrow> None
         | Some segs \<Rightarrow> Some (r\<lparr> ragSegments := Some (map Inr segs) \<rparr>))
      else Some r)"

text \<open>\<open>classificationMethod\<close> is \<open>'hybrid'\<close> when \<open>ragScores\<close> is truthy, \<open>'keyword-only'\<close> otherwise.\<close>

definition tagMethod :: "('s, 'r) run \<Rightarrow> ('s, 'r) run" where
  "tagMethod r =
     r\<lparr> classificationMethod := (if ragScores r \<noteq> None then ''hybrid'' else ''keyword-only'') \<rparr>"

text \<open>
  The controllers from the transcript on: \<open>None\<close> when the run does not return,
  \<open>Inl\<close> the status of an error response, \<open>Inr\<close> the fields of the response with
  status 200.
\<close>

definition classroomWhisperController ::
    "('s, 'r) env \<Rightarrow> js_string option \<Rightarrow> (nat + ('s, 'r) run) option" where
  "classroomWhisperController e transcript =
     (case classroomRagStep e transcript (lexicalStep transcript) of
        Inl status \<Rightarrow> Some (Inl status)
      | Inr r \<Rightarrow> map_option (\<lambda>r'. Inr (tagMethod r')) (keywordFallback transcript r))"

text \<open>
  \<open>revaiController\<close> logs \<open>transcript.length\<close> before the analysis, which raises a
  TypeError when the transcript is null or undefined: status 500.
\<close>

definition revaiController ::
    "('s, 'r) env \<Rightarrow> js_string option \<Rightarrow> (nat + ('s, 'r) run) option" where
  "revaiController e transcript =
     (case transcript of
        None \<Rightarrow> Some (Inl 500)
      | Some t \<Rightarrow>
          (case revaiRagStep e transcript (lexicalStep transcript) of
             Inl status \<Rightarrow> Some (Inl status)
           | Inr r \<Rightarrow> map_option (\<lambda>r'. Inr (tagMethod r')) (keywordFallback transcript r)))"

fun scoreOf :: "categoryScores \<Rightarrow> category \<Rightarrow> int" where
  "scoreOf sc Science = scienceTalk sc"
| "scoreOf sc Social = socialTalk sc"
| "scoreOf sc Literature = literatureTalk sc"
| "scoreOf sc Language = languageDevelopment sc"

section \<open>Notions used in the statements\<close>

text \<open>The segments that one pass of the inner loop of \<open>extractKeywordSegments\<close> pushes.\<close>

definition segmentsOfKeyword :: "category \<Rightarrow> js_string \<Rightarrow> js_string \<Rightarrow> segment list" where
  "segmentsOfKeyword c transcript keyword =
     map (mkSegment c transcript) (matchFrom (escapedRegExp keyword) transcript 0)"

text \<open>A keyword is plain when it is not empty and made of ASCII units that are no syntax characters.\<close>

definition plainKeyword :: "js_string \<Rightarrow> bool" where
  "plainKeyword kw \<longleftrightarrow> kw \<noteq> [] \<and> list_all (\<lambda>x. x < 128 \<and> x \<notin> set syntaxChars) kw"

text \<open>The lower-case form of a unit when only A to Z are touched.\<close>

definition lowerAscii :: "nat \<Rightarrow> nat" where
  "lowerAscii c = (if 0x41 \<le> c \<and> c \<le> 0x5A then c + 32 else c)"

text \<open>
  A pattern is word-bounded when it opens with \<open>\b\<close> and a word character and closes with
  a word character and \<open>\b\<close>.
\<close>

definition wordBounded :: "atom list \<Rightarrow> bool" where
  "wordBounded p \<longleftrightarrow>
     (case p of WordBoundary # Lit c # q \<Rightarrow> isWordChar c | _ \<Rightarrow> False) \<and>
     (case rev p of WordBoundary # Lit d # q \<Rightarrow> isWordChar d | _ \<Rightarrow> False)"

text \<open>Where a segment lies: its category and its two offsets.\<close>

definition placeOf :: "segment \<Rightarrow> category \<times> nat \<times> nat" where
  "placeOf seg = (category seg, startIndex seg, endIndex seg)"

text \<open>
  \<open>phraseVariant kw tx\<close>: the text \<open>tx\<close> is the keyword \<open>kw\<close> with its letters in any case
  and with each run of white space replaced by a run of white space of any length.
\<close>

function phraseVariant :: "js_string \<Rightarrow> js_string \<Rightarrow> bool" where
  "phraseVariant [] tx = (tx = [])"
| "phraseVariant (k # ks) [] = False"
| "phraseVariant (k # ks) (c # cs) =
     (if isWhiteSpace k
      then isWhiteSpace c \<and> phraseVariant (dropWhile isWhiteSpace ks) (dropWhile isWhiteSpace cs)
      else canonicalize c = canonicalize k \<and> phraseVariant ks cs)"
  by pat_completeness auto
termination
  by (relation "measure (\<lambda>(kw, tx). length kw)") (auto simp: length_dropWhile_le less_Suc_eq_le)

text \<open>
  Three environments for the examples: a classifier that throws, a classifier that is
  switched off, and a classifier that returns scores and one segment.
\<close>

definition throwingEnv :: "(unit, unit) env" where
  "throwingEnv =
     \<lparr> RAG_ENABLED = Some (js '' True ''),
       classifyWithSegments = (\<lambda>t. Inl (ThrownObject (js ''unavailable''))),
       combineScores = (\<lambda>s k. k) \<rparr>"

definition disabledEnv :: "(unit, unit) env" where
  "disabledEnv =
     \<lparr> RAG_ENABLED = Some (js ''false''),
       classifyWithSegments = (\<lambda>t. Inr \<lparr> scores = Some (), segments = Some [()] \<rparr>),
       combineScores = (\<lambda>s k. k) \<rparr>"

definition workingEnv :: "(unit, unit) env" where
  "workingEnv =
     \<lparr> RAG_ENABLED = Some (js ''true''),
       classifyWithSegments = (\<lambda>t. Inr \<lparr> scores = Some (), segments = Some [()] \<rparr>),
       combineScores = (\<lambda>s k. k) \<rparr>"

section \<open>Facts about the matcher\<close>
declare regexExec.simps [simp del]
declare matchFrom.simps [simp del]

lemmas eval_defs = keywordRegExp_def escapedRegExp_def escapeRegExp_def syntaxChars_def
  includesSpace_def js_def isWordBoundary_def isWordChar_def canonicalize_def
  countKeyword_def stringMatch_def isWhiteSpace_def spaceRun_def
  regexExec.simps matchFrom.simps

lemma wordAtoms_nonempty: "kw \<noteq> [] \<Longrightarrow> \<exists>a p. wordAtoms kw = a # p \<and> a \<noteq> WordBoundary"
  by (cases kw rule: wordAtoms.cases) auto

lemma phraseAtoms_nonempty: "kw \<noteq> [] \<Longrightarrow> \<exists>a p. phraseAtoms kw = a # p \<and> a \<noteq> WordBoundary"
  by (cases kw) (auto split: list.splits)

lemma matchAtoms_consume:
  assumes "a \<noteq> WordBoundary" and "matchAtoms (a # p) s i = Some e"
  shows "i < e"
proof (cases a)
  case WordBoundary
  with assms show ?thesis by simp
next
  case (Lit c)
  with assms have "matchAtoms p s (Suc i) = Some e" by (auto split: if_splits)
  from matchAtoms_ge [OF this] show ?thesis by simp
next
  case SpacePlus
  with assms(2) have "firstSome (map (\<lambda>k. matchAtoms p s (i + k)) (rev [1 ..< Suc (spaceRun s i)])) = Some e"
    by simp
  from firstSome_in [OF this] obtain k where "1 \<le> k" and "Some e = matchAtoms p s (i + k)"
    by (auto simp del: upt_Suc)
  with matchAtoms_ge [of p s "i + k" e] show ?thesis by simp
qed

lemma keywordRegExp_consumes:
  assumes "kw \<noteq> []" and "matchAtoms (keywordRegExp kw) s i = Some e"
  shows "i < e"
proof -
  have "\<exists>a p. keywordRegExp kw = WordBoundary # a # p \<and> a \<noteq> WordBoundary"
    using wordAtoms_nonempty [OF assms(1)] phraseAtoms_nonempty [OF assms(1)]
    by (cases "includesSpace kw") (auto simp: keywordRegExp_def)
  then obtain a p where "keywordRegExp kw = WordBoundary # a # p" and a: "a \<noteq> WordBoundary"
    by blast
  with assms(2) have "matchAtoms (a # p) s i = Some e"
    by (auto split: if_splits)
  from matchAtoms_consume [OF a this] show ?thesis .
qed

lemma escapeRegExp_nonempty: "kw \<noteq> [] \<Longrightarrow> escapeRegExp kw \<noteq> []"
  by (cases kw) (auto simp: escapeRegExp_def)

lemma escapedRegExp_consumes:
  assumes "kw \<noteq> []" and "matchAtoms (escapedRegExp kw) s i = Some e"
  shows "i < e"
proof -
  have ne: "escapeRegExp kw \<noteq> []" using assms(1) by (rule escapeRegExp_nonempty)
  have "\<exists>a p. escapedRegExp kw = WordBoundary # a # p \<and> a \<noteq> WordBoundary"
    using wordAtoms_nonempty [OF ne] phraseAtoms_nonempty [OF ne]
    by (cases "includesSpace kw") (auto simp: escapedRegExp_def Let_def)
  then obtain a p where "escapedRegExp kw = WordBoundary # a # p" and a: "a \<noteq> WordBoundary"
    by blast
  with assms(2) have "matchAtoms (a # p) s i = Some e"
    by (auto split: if_splits)
  from matchAtoms_consume [OF a this] show ?thesis .
qed

lemma execLoop_matchFrom:
  assumes "\<And>i e. matchAtoms p s i = Some e \<Longrightarrow> i < e"
  shows "execLoop p c s i segs = Some (segs @ map (mkSegment c s) (matchFrom p s i))"
  using assms
proof (induction p s i arbitrary: segs rule: matchFrom.induct)
  case (1 p s i)
  show ?case
  proof (cases "regexExec p s i")
    case None
    then show ?thesis
      by (subst execLoop.simps, subst matchFrom.simps) simp
  next
    case (Some m)
    obtain j e where m: "m = (j, e)" by (cases m)
    with Some have ex: "regexExec p s i = Some (j, e)" by simp
    from regexExec_bounds [OF ex] have "matchAtoms p s j = Some e" by simp
    from "1.prems" [OF this] have lt: "j < e" .
    then have idx: "(if e = j then Suc e else e) = e" by simp
    have step: "execLoop p c s i segs = execLoop p c s e (segs @ [mkSegment c s (j, e)])"
      by (subst execLoop.simps) (simp add: ex)
    have rest: "execLoop p c s e (segs @ [mkSegment c s (j, e)]) =
        Some ((segs @ [mkSegment c s (j, e)]) @ map (mkSegment c s) (matchFrom p s e))"
      using "1.IH" [OF ex refl, of "segs @ [mkSegment c s (j, e)]"] "1.prems" idx by simp
    have unf: "matchFrom p s i = (j, e) # matchFrom p s e"
      by (subst matchFrom.simps) (simp add: ex idx)
    show ?thesis by (simp add: step rest unf)
  qed
qed

lemma countOf_addCount:
  "countOf (addCount c n cs) c' = (if c = c' then countOf cs c' + n else countOf cs c')"
  by (cases c; cases c') simp_all

lemma fold_addCount:
  "countOf (fold (\<lambda>kw. addCount c (f kw)) kws cs) c' =
     (if c = c' then countOf cs c' + sum_list (map f kws) else countOf cs c')"
  by (induction kws arbitrary: cs) (auto simp: countOf_addCount)

lemma countOf_zero: "countOf zeroCounts c = 0"
  by (cases c) (simp_all add: zeroCounts_def)

lemma analyze_countOf:
  assumes "\<not> blankTranscript (JString t)"
  shows "countOf (analyzeTranscript (JString t)) c =
           sum_list (map (countKeyword (toLowerCase t)) (KEYWORDS c))"
  using assms
  by (cases c)
    (simp_all add: analyzeTranscript_def categories_def Let_def fold_addCount countOf_zero
       del: countOf.simps)

lemma countKeyword_length:
  "countKeyword s kw = length (matchFrom (keywordRegExp kw) s 0)"
  by (simp add: countKeyword_def stringMatch_def split: list.splits)


lemmas KEYWORDS_eval = KEYWORDS.simps [unfolded js_def, simplified]

lemma KEYWORDS_plain_all: "list_all plainKeyword (KEYWORDS c)"
  by (cases c) (simp_all add: KEYWORDS_eval js_def plainKeyword_def syntaxChars_def)

lemma KEYWORDS_plain: "kw \<in> set (KEYWORDS c) \<Longrightarrow> plainKeyword kw"
  using KEYWORDS_plain_all [of c] by (simp add: list_all_iff)

lemma KEYWORDS_nonempty: "kw \<in> set (KEYWORDS c) \<Longrightarrow> kw \<noteq> []"
  using KEYWORDS_plain [of kw c] by (simp add: plainKeyword_def)

lemma escapeRegExp_plain: "plainKeyword kw \<Longrightarrow> escapeRegExp kw = kw"
proof -
  have "list_all (\<lambda>x. x \<notin> set syntaxChars) kw \<Longrightarrow>
        concat (map (\<lambda>c. if c \<in> set syntaxChars then [0x5C, c] else [c]) kw) = kw"
    by (induction kw) simp_all
  then show "plainKeyword kw \<Longrightarrow> escapeRegExp kw = kw"
    by (simp add: plainKeyword_def escapeRegExp_def list_all_iff)
qed

lemma escapedRegExp_plain: "plainKeyword kw \<Longrightarrow> escapedRegExp kw = keywordRegExp kw"
  by (simp add: escapedRegExp_def keywordRegExp_def escapeRegExp_plain)

lemma forEachKeyword_concat:
  assumes "\<forall>kw \<in> set kws. kw \<noteq> []"
  shows "forEachKeyword c kws t segs = Some (segs @ concat (map (segmentsOfKeyword c t) kws))"
  using assms
proof (induction kws arbitrary: segs)
  case Nil
  then show ?case by simp
next
  case (Cons kw kws)
  then have ne: "kw \<noteq> []" by simp
  have loop: "execLoop (escapedRegExp kw) c t 0 segs = Some (segs @ segmentsOfKeyword c t kw)"
    unfolding segmentsOfKeyword_def
    by (rule execLoop_matchFrom) (rule escapedRegExp_consumes [OF ne])
  from Cons show ?case by (simp add: loop)
qed

lemma forEachCategory_concat:
  assumes "\<forall>c \<in> set cs. \<forall>kw \<in> set (KEYWORDS c). kw \<noteq> []"
  shows "forEachCategory cs t segs =
           Some (segs @ concat (map (\<lambda>c. concat (map (segmentsOfKeyword c t) (KEYWORDS c))) cs))"
  using assms
proof (induction cs arbitrary: segs)
  case Nil
  then show ?case by simp
next
  case (Cons c cs)
  then show ?case by (simp add: forEachKeyword_concat)
qed

lemma extract_concat:
  assumes "\<not> blankTranscript (JString t)"
  shows "extractKeywordSegments (JString t) =
           Some (concat (map (\<lambda>c. concat (map (segmentsOfKeyword c t) (KEYWORDS c))) categories))"
proof -
  have "forEachCategory categories t [] =
          Some ([] @ concat (map (\<lambda>c. concat (map (segmentsOfKeyword c t) (KEYWORDS c))) categories))"
    by (rule forEachCategory_concat) (simp add: KEYWORDS_nonempty)
  with assms show ?thesis by (simp add: extractKeywordSegments_def)
qed

lemma extract_total: "\<exists>segs. extractKeywordSegments v = Some segs"
proof (cases "blankTranscript v")
  case True
  then show ?thesis by (simp add: extractKeywordSegments_def)
next
  case False
  then obtain t where "v = JString t"
    by (cases v) (simp_all add: blankTranscript_def)
  with False extract_concat [of t] show ?thesis by simp
qed

lemma trim_blank: "list_all isWhiteSpace s \<Longrightarrow> trim s = []"
  by (auto simp: trim_def list_all_iff dest: set_dropWhileD)

lemma blank_cases:
  "blankTranscript v \<longleftrightarrow> typeOf v \<noteq> ''string'' \<or> (\<exists>s. v = JString s \<and> trim s = [])"
  by (cases v) (auto simp: blankTranscript_def trim_def)


lemma count_list_concat: "count_list (concat xss) x = sum_list (map (\<lambda>xs. count_list xs x) xss)"
  by (induction xss) simp_all

lemma sum_list_count_le:
  assumes "\<And>y. y \<in> set ys \<Longrightarrow> y = k \<Longrightarrow> n \<le> f y"
  shows "count_list ys k * n \<le> sum_list (map f ys)"
  using assms by (induction ys) (auto simp: add_mono trans_le_add2)

lemma category_segmentsOfKeyword: "seg \<in> set (segmentsOfKeyword c t kw) \<Longrightarrow> category seg = c"
  by (auto simp: segmentsOfKeyword_def mkSegment_def)

lemma filter_segments_category:
  "filter (\<lambda>seg. category seg = c) (concat (map (segmentsOfKeyword c' t) kws)) =
     (if c' = c then concat (map (segmentsOfKeyword c' t) kws) else [])"
proof -
  have all: "\<forall>seg \<in> set (concat (map (segmentsOfKeyword c' t) kws)). category seg = c'"
    by (auto dest: category_segmentsOfKeyword)
  show ?thesis
  proof (cases "c' = c")
    case True
    with all show ?thesis by (simp add: filter_id_conv del: set_concat)
  next
    case False
    with all show ?thesis by (simp add: filter_empty_conv del: set_concat)
  qed
qed

lemma filter_category:
  "filter (\<lambda>seg. category seg = c)
     (concat (map (\<lambda>c'. concat (map (segmentsOfKeyword c' t) (KEYWORDS c'))) categories)) =
   concat (map (segmentsOfKeyword c t) (KEYWORDS c))"
  by (cases c) (simp_all add: categories_def filter_segments_category)

lemma length_segments:
  "length (concat (map (segmentsOfKeyword c t) kws)) =
     sum_list (map (\<lambda>kw. length (matchFrom (escapedRegExp kw) t 0)) kws)"
  by (induction kws) (simp_all add: segmentsOfKeyword_def)

lemma canonicalize_lowerAscii: "canonicalize (lowerAscii c) = canonicalize c"
  by (simp add: canonicalize_def lowerAscii_def)

lemma isWordChar_lowerAscii: "isWordChar (lowerAscii c) = isWordChar c"
  by (simp add: isWordChar_def lowerAscii_def)

lemma isWhiteSpace_lowerAscii: "isWhiteSpace (lowerAscii c) = isWhiteSpace c"
  by (simp add: isWhiteSpace_def lowerAscii_def)

lemma isWordBoundary_lowerAscii: "isWordBoundary (map lowerAscii s) i = isWordBoundary s i"
  by (auto simp: isWordBoundary_def isWordChar_lowerAscii)

lemma spaceRun_lowerAscii: "spaceRun (map lowerAscii s) i = spaceRun s i"
proof -
  have "isWhiteSpace \<circ> lowerAscii = isWhiteSpace"
    by (rule ext) (simp add: isWhiteSpace_lowerAscii)
  then show ?thesis
    by (simp add: spaceRun_def drop_map takeWhile_map)
qed

lemma matchAtoms_lowerAscii: "matchAtoms p (map lowerAscii s) i = matchAtoms p s i"
proof (induction p arbitrary: i)
  case Nil
  show ?case by simp
next
  case (Cons a p)
  show ?case
    by (cases a)
      (auto simp: Cons isWordBoundary_lowerAscii spaceRun_lowerAscii canonicalize_lowerAscii
         simp del: upt_Suc)
qed

lemma regexExec_lowerAscii: "regexExec p (map lowerAscii s) i = regexExec p s i"
proof (induction p s i rule: regexExec.induct)
  case (1 p s i)
  show ?case
    by (subst regexExec.simps, subst (2) regexExec.simps)
      (simp add: matchAtoms_lowerAscii "1.IH" split: option.splits)
qed

lemma matchFrom_lowerAscii: "matchFrom p (map lowerAscii s) i = matchFrom p s i"
proof (induction p s i rule: matchFrom.induct)
  case (1 p s i)
  show ?case
    by (subst matchFrom.simps, subst (2) matchFrom.simps)
      (simp add: regexExec_lowerAscii "1.IH" split: option.splits prod.splits)
qed

lemma toLowerCase_lowerAscii:
  "\<forall>u \<in> set t. u \<noteq> 0x130 \<and> u \<noteq> 0x212A \<Longrightarrow> toLowerCase t = map lowerAscii t"
  by (induction t) (simp_all add: toLowerCase_def lowerUnit_def lowerAscii_def)


lemma segments_keywordRegExp:
  "concat (map (segmentsOfKeyword c t) (KEYWORDS c)) =
     concat (map (\<lambda>kw. map (mkSegment c t) (matchFrom (keywordRegExp kw) t 0)) (KEYWORDS c))"
proof -
  have "map (segmentsOfKeyword c t) (KEYWORDS c) =
          map (\<lambda>kw. map (mkSegment c t) (matchFrom (keywordRegExp kw) t 0)) (KEYWORDS c)"
    by (rule map_cong) (simp_all add: segmentsOfKeyword_def escapedRegExp_plain KEYWORDS_plain)
  then show ?thesis by (rule arg_cong [where f = concat])
qed

lemma count_segments_agree:
  assumes nb: "\<not> blankTranscript (JString t)"
    and ok: "\<forall>u \<in> set t. u \<noteq> 0x130 \<and> u \<noteq> 0x212A"
  shows "countOf (analyzeTranscript (JString t)) c =
           length (concat (map (segmentsOfKeyword c t) (KEYWORDS c)))"
proof -
  have "countKeyword (map lowerAscii t) = (\<lambda>kw. length (matchFrom (keywordRegExp kw) t 0))"
    by (rule ext) (simp add: countKeyword_length matchFrom_lowerAscii)
  then have "countOf (analyzeTranscript (JString t)) c =
          sum_list (map (\<lambda>kw. length (matchFrom (keywordRegExp kw) t 0)) (KEYWORDS c))"
    by (simp add: analyze_countOf [OF nb] toLowerCase_lowerAscii [OF ok])
  also have "\<dots> = sum_list (map (\<lambda>kw. length (matchFrom (escapedRegExp kw) t 0)) (KEYWORDS c))"
    by (rule arg_cong [where f = sum_list], rule map_cong)
      (simp_all add: escapedRegExp_plain KEYWORDS_plain)
  finally show ?thesis by (simp add: length_segments)
qed

lemma blank_results:
  "blankTranscript v \<Longrightarrow> analyzeTranscript v = zeroCounts \<and> extractKeywordSegments v = Some []"
  by (simp add: analyzeTranscript_def extractKeywordSegments_def)

lemma kelvin_not_blank: "\<not> blankTranscript (JString [0x212A, 0x69, 0x6E, 0x64])"
  by (simp add: blankTranscript_def trim_def isWhiteSpace_def)

lemma kelvin_segments:
  "concat (map (segmentsOfKeyword c [0x212A, 0x69, 0x6E, 0x64]) (KEYWORDS c)) = []"
  unfolding segments_keywordRegExp
  by (cases c) (simp_all add: KEYWORDS_eval eval_defs)

lemma kelvin_count:
  "sum_list (map (countKeyword (toLowerCase [0x212A, 0x69, 0x6E, 0x64])) (KEYWORDS Social)) = 1"
  by (simp add: toLowerCase_def lowerUnit_def KEYWORDS_eval eval_defs)

lemma count_list_pos: "x \<in> set xs \<Longrightarrow> 1 \<le> count_list xs x"
  by (induction xs) auto

lemma count_list_keyword_segments:
  assumes "m \<in> set (matchFrom (escapedRegExp kw) t 0)"
  shows "count_list kws kw \<le> count_list (concat (map (segmentsOfKeyword c t) kws)) (mkSegment c t m)"
proof -
  have "mkSegment c t m \<in> set (segmentsOfKeyword c t kw)"
    using assms by (simp add: segmentsOfKeyword_def)
  from count_list_pos [OF this]
  have one: "\<And>y. y \<in> set kws \<Longrightarrow> y = kw \<Longrightarrow>
      1 \<le> count_list (segmentsOfKeyword c t y) (mkSegment c t m)"
    by simp
  have "count_list kws kw * 1 \<le>
          sum_list (map (\<lambda>y. count_list (segmentsOfKeyword c t y) (mkSegment c t m)) kws)"
    by (rule sum_list_count_le) (rule one)
  then show ?thesis
    by (simp add: count_list_concat comp_def)
qed

lemma count_list_all_segments:
  assumes "m \<in> set (matchFrom (escapedRegExp kw) t 0)"
  shows "count_list (KEYWORDS c) kw \<le>
           count_list (concat (map (\<lambda>c'. concat (map (segmentsOfKeyword c' t) (KEYWORDS c'))) categories))
             (mkSegment c t m)"
proof -
  have "count_list (concat (map (segmentsOfKeyword c t) (KEYWORDS c))) (mkSegment c t m) \<le>
          count_list (concat (map (\<lambda>c'. concat (map (segmentsOfKeyword c' t) (KEYWORDS c'))) categories))
             (mkSegment c t m)"
    by (cases c) (simp_all add: categories_def)
  with count_list_keyword_segments [OF assms, of "KEYWORDS c" c] show ?thesis
    by (rule le_trans)
qed

lemma count_ge_duplicates:
  assumes "\<not> blankTranscript (JString t)"
  shows "count_list (KEYWORDS c) kw * countKeyword (toLowerCase t) kw
           \<le> countOf (analyzeTranscript (JString t)) c"
  unfolding analyze_countOf [OF assms]
  by (rule sum_list_count_le) simp

lemma duplicate_entries:
  "count_list (KEYWORDS Language) (js ''talk'') = 2 \<and> count_list (KEYWORDS Language) (js ''say'') = 2 \<and>
   count_list (KEYWORDS Language) (js ''tell'') = 2 \<and> count_list (KEYWORDS Literature) (js ''magic'') = 2 \<and>
   count_list (KEYWORDS Science) (js ''light'') = 2"
  by (simp add: KEYWORDS_eval js_def)

lemma talk_not_blank: "\<not> blankTranscript (JString (js ''talk''))"
  by (simp add: blankTranscript_def trim_def isWhiteSpace_def js_def)

lemma talk_count:
  "sum_list (map (countKeyword (toLowerCase (js ''talk''))) (KEYWORDS Language)) = 2"
  by (simp add: toLowerCase_def lowerUnit_def KEYWORDS_eval eval_defs)

lemma talk_segments:
  "concat (map (\<lambda>c. concat (map (segmentsOfKeyword c (js ''talk'')) (KEYWORDS c))) categories) =
     [\<lparr> segText = js ''talk'', category = Social, startIndex = 0, endIndex = 4 \<rparr>,
      \<lparr> segText = js ''talk'', category = Language, startIndex = 0, endIndex = 4 \<rparr>,
      \<lparr> segText = js ''talk'', category = Language, startIndex = 0, endIndex = 4 \<rparr>]"
  unfolding segments_keywordRegExp categories_def
  by (simp add: KEYWORDS_eval eval_defs mkSegment_def slice_def)

lemma spaceRun_le: "i + spaceRun s i \<le> max i (length s)"
proof -
  have "length (takeWhile isWhiteSpace (drop i s)) \<le> length (drop i s)"
    by (rule length_takeWhile_le)
  then show ?thesis by (simp add: spaceRun_def)
qed

lemma spacePlus_cases:
  assumes "matchAtoms (SpacePlus # p) s i = Some e"
  shows "\<exists>k. 1 \<le> k \<and> k \<le> spaceRun s i \<and> matchAtoms p s (i + k) = Some e"
proof -
  from assms have "firstSome (map (\<lambda>k. matchAtoms p s (i + k)) (rev [1 ..< Suc (spaceRun s i)])) = Some e"
    by simp
  from firstSome_in [OF this]
  have "Some e \<in> (\<lambda>k. matchAtoms p s (i + k)) ` {1 ..< Suc (spaceRun s i)}"
    by (simp del: upt_Suc)
  then obtain k where "k \<in> {1 ..< Suc (spaceRun s i)}" and "Some e = matchAtoms p s (i + k)"
    by blast
  then have "1 \<le> k \<and> k \<le> spaceRun s i \<and> matchAtoms p s (i + k) = Some e"
    by simp
  then show ?thesis ..
qed

lemma matchAtoms_le_length: "i \<le> length s \<Longrightarrow> matchAtoms p s i = Some e \<Longrightarrow> e \<le> length s"
proof (induction p arbitrary: i)
  case Nil
  then show ?case by simp
next
  case (Cons a p)
  show ?case
  proof (cases a)
    case WordBoundary
    with Cons show ?thesis by (auto split: if_splits)
  next
    case (Lit c)
    with Cons.prems have "Suc i \<le> length s" and "matchAtoms p s (Suc i) = Some e"
      by (auto split: if_splits)
    then show ?thesis by (rule Cons.IH)
  next
    case SpacePlus
    with Cons.prems spacePlus_cases [of p s i e]
    obtain k where k: "k \<le> spaceRun s i" and m: "matchAtoms p s (i + k) = Some e"
      by blast
    from k spaceRun_le [of i s] Cons.prems(1) have "i + k \<le> length s" by simp
    from Cons.IH [OF this m] show ?thesis .
  qed
qed

lemma matchFrom_sound:
  "(j, e) \<in> set (matchFrom p s i) \<Longrightarrow>
     i \<le> j \<and> j \<le> e \<and> e \<le> length s \<and> matchAtoms p s j = Some e"
proof (induction p s i rule: matchFrom.induct)
  case (1 p s i)
  show ?case
  proof (cases "regexExec p s i")
    case None
    with "1.prems" show ?thesis by (subst (asm) matchFrom.simps) simp
  next
    case (Some m)
    obtain j' e' where m: "m = (j', e')" by (cases m)
    with Some have ex: "regexExec p s i = Some (j', e')" by simp
    note b = regexExec_bounds [OF ex]
    from b have le: "e' \<le> length s" by (auto intro: matchAtoms_le_length)
    from "1.prems" ex have "(j, e) = (j', e') \<or> (j, e) \<in> set (matchFrom p s (if e' = j' then Suc e' else e'))"
      by (subst (asm) matchFrom.simps) simp
    then show ?thesis
    proof
      assume "(j, e) = (j', e')"
      with b le show ?thesis by simp
    next
      assume "(j, e) \<in> set (matchFrom p s (if e' = j' then Suc e' else e'))"
      from "1.IH" [OF ex refl this] b show ?thesis by (auto split: if_splits)
    qed
  qed
qed

lemma matchFrom_ordered:
  "sorted_wrt (\<lambda>a b. snd a \<le> fst b) (matchFrom p s i)"
proof (induction p s i rule: matchFrom.induct)
  case (1 p s i)
  show ?case
  proof (cases "regexExec p s i")
    case None
    then show ?thesis by (subst matchFrom.simps) simp
  next
    case (Some m)
    obtain j' e' where m: "m = (j', e')" by (cases m)
    with Some have ex: "regexExec p s i = Some (j', e')" by simp
    have later: "\<forall>x \<in> set (matchFrom p s (if e' = j' then Suc e' else e')). e' \<le> fst x"
    proof
      fix x assume x: "x \<in> set (matchFrom p s (if e' = j' then Suc e' else e'))"
      obtain a b where "x = (a, b)" by (cases x)
      with x matchFrom_sound [of a b p s "if e' = j' then Suc e' else e'"]
      show "e' \<le> fst x" by (auto split: if_splits)
    qed
    from "1.IH" [OF ex refl] later show ?thesis
      by (subst matchFrom.simps) (simp add: ex)
  qed
qed

lemma mkSegment_fields:
  assumes "(j, e) \<in> set (matchFrom p t 0)"
  shows "startIndex (mkSegment c t (j, e)) = j \<and> endIndex (mkSegment c t (j, e)) = e \<and>
         category (mkSegment c t (j, e)) = c \<and>
         segText (mkSegment c t (j, e)) = slice t j e"
proof -
  from matchFrom_sound [OF assms] have "j \<le> e" and "e \<le> length t" by simp_all
  then show ?thesis by (simp add: mkSegment_def slice_def)
qed

lemma matchAtoms_end_boundary:
  "matchAtoms (p @ [WordBoundary]) s i = Some e \<Longrightarrow> isWordBoundary s e"
proof (induction p arbitrary: i)
  case Nil
  then show ?case by (auto split: if_splits)
next
  case (Cons a p)
  show ?case
  proof (cases a)
    case WordBoundary
    with Cons show ?thesis by (auto split: if_splits)
  next
    case (Lit c)
    with Cons show ?thesis by (auto split: if_splits)
  next
    case SpacePlus
    with Cons.prems spacePlus_cases [of "p @ [WordBoundary]" s i e]
    obtain k where "matchAtoms (p @ [WordBoundary]) s (i + k) = Some e"
      by auto
    from Cons.IH [OF this] show ?thesis .
  qed
qed

lemma keyword_match_fields:
  assumes kw: "kw \<noteq> []" and m: "m \<in> set (matchFrom (escapedRegExp kw) t 0)"
  shows "fst m < snd m \<and> snd m \<le> length t \<and>
         startIndex (mkSegment c t m) = fst m \<and> endIndex (mkSegment c t m) = snd m \<and>
         category (mkSegment c t m) = c \<and>
         segText (mkSegment c t m) = take (snd m - fst m) (drop (fst m) t)"
proof -
  obtain j e where je: "m = (j, e)" by (cases m)
  with m matchFrom_sound [of j e "escapedRegExp kw" t 0]
  have s: "matchAtoms (escapedRegExp kw) t j = Some e" and le: "e \<le> length t" by simp_all
  from escapedRegExp_consumes [OF kw s] have "j < e" .
  with le je show ?thesis by (simp add: mkSegment_def slice_def)
qed

lemma segment_in_all:
  assumes "kw \<in> set (KEYWORDS c)" and "m \<in> set (matchFrom (escapedRegExp kw) t 0)"
  shows "mkSegment c t m \<in>
           set (concat (map (\<lambda>c'. concat (map (segmentsOfKeyword c' t) (KEYWORDS c'))) categories))"
proof -
  have "c \<in> set categories" by (cases c) (simp_all add: categories_def)
  with assms show ?thesis by (auto simp: segmentsOfKeyword_def)
qed

lemma all_segments_fields:
  assumes "seg \<in> set (concat (map (\<lambda>c'. concat (map (segmentsOfKeyword c' t) (KEYWORDS c'))) categories))"
  shows "startIndex seg < endIndex seg \<and> endIndex seg \<le> length t \<and>
         segText seg = take (endIndex seg - startIndex seg) (drop (startIndex seg) t)"
proof -
  from assms obtain c kw m where kw: "kw \<in> set (KEYWORDS c)"
      and m: "m \<in> set (matchFrom (escapedRegExp kw) t 0)" and seg: "seg = mkSegment c t m"
    by (auto simp: segmentsOfKeyword_def)
  from keyword_match_fields [OF KEYWORDS_nonempty [OF kw] m, of c] seg show ?thesis by simp
qed

lemma answer_not_blank: "\<not> blankTranscript (JString (js ''An answer''))"
  by (simp add: blankTranscript_def trim_def isWhiteSpace_def js_def)

lemma answer_segments:
  "concat (map (\<lambda>c. concat (map (segmentsOfKeyword c (js ''An answer'')) (KEYWORDS c))) categories) =
     [\<lparr> segText = js ''answer'', category = Science, startIndex = 3, endIndex = 9 \<rparr>,
      \<lparr> segText = js ''answer'', category = Social, startIndex = 3, endIndex = 9 \<rparr>,
      \<lparr> segText = js ''answer'', category = Language, startIndex = 3, endIndex = 9 \<rparr>]"
  unfolding segments_keywordRegExp categories_def
  by (simp add: KEYWORDS_eval eval_defs mkSegment_def slice_def)

lemma test_not_blank: "\<not> blankTranscript (JString (js ''TEST data, test''))"
  by (simp add: blankTranscript_def trim_def isWhiteSpace_def js_def)

lemma test_segments:
  "concat (map (segmentsOfKeyword Science (js ''TEST data, test'')) (KEYWORDS Science)) =
     [\<lparr> segText = js ''TEST'', category = Science, startIndex = 0, endIndex = 4 \<rparr>,
      \<lparr> segText = js ''test'', category = Science, startIndex = 11, endIndex = 15 \<rparr>,
      \<lparr> segText = js ''data'', category = Science, startIndex = 5, endIndex = 9 \<rparr>]"
  unfolding segments_keywordRegExp
  by (simp add: KEYWORDS_eval eval_defs mkSegment_def slice_def)


lemma all_segments_unfold:
  "concat (map (\<lambda>c. concat (map (segmentsOfKeyword c t) (KEYWORDS c))) categories) =
   concat (map (\<lambda>c. concat (map (\<lambda>kw. map (mkSegment c t) (matchFrom (escapedRegExp kw) t 0))
                                   (KEYWORDS c))) categories)"
  by (simp add: segmentsOfKeyword_def [abs_def])

lemmas controller_defs = classroomWhisperController_def revaiController_def classroomRagStep_def
  revaiRagStep_def keywordFallback_def tagMethod_def lexicalStep_def Let_def orEmpty_def

lemma trim_guard: "t \<noteq> [] \<and> 0 < length (trim t) \<longleftrightarrow> trim t \<noteq> []"
  by (cases t) (simp_all add: trim_def)

lemma throwingEnv_enabled: "ragEnabled throwingEnv"
  by (simp add: throwingEnv_def ragEnabled_def trim_def toLowerCase_def lowerUnit_def
      isWhiteSpace_def js_def)

lemma talk_trim: "trim (js ''talk'') \<noteq> []"
  by (simp add: trim_def isWhiteSpace_def js_def)

lemma disabledEnv_disabled: "\<not> ragEnabled disabledEnv"
  by (simp add: disabledEnv_def ragEnabled_def trim_def toLowerCase_def lowerUnit_def
      isWhiteSpace_def js_def)

lemma workingEnv_enabled: "ragEnabled workingEnv"
  by (simp add: workingEnv_def ragEnabled_def trim_def toLowerCase_def lowerUnit_def
      isWhiteSpace_def js_def)

lemma workingEnv_returns:
  "classifyWithSegments workingEnv t = Inr \<lparr> scores = Some (), segments = Some [()] \<rparr>"
  by (simp add: workingEnv_def)

lemma no_cons_iff: "(\<forall>x xs. l \<noteq> x # xs) \<longleftrightarrow> l = []"
  by (cases l) auto

lemma canonicalize_wordChar: "canonicalize c = canonicalize k \<Longrightarrow> isWordChar c = isWordChar k"
  by (auto simp: canonicalize_def isWordChar_def split: if_splits)

lemma canonicalize_whiteSpace: "canonicalize c = canonicalize k \<Longrightarrow> isWhiteSpace c = isWhiteSpace k"
  by (auto simp: canonicalize_def isWhiteSpace_def split: if_splits)

lemma matchAtoms_last_lit:
  "matchAtoms (q @ [Lit d, WordBoundary]) s i = Some e \<Longrightarrow>
     isWordBoundary s e \<and> 0 < e \<and> e \<le> length s \<and> canonicalize (s ! (e - 1)) = canonicalize d"
proof (induction q arbitrary: i)
  case Nil
  then show ?case by (auto split: if_splits)
next
  case (Cons a q)
  show ?case
  proof (cases a)
    case WordBoundary
    with Cons show ?thesis by (auto split: if_splits)
  next
    case (Lit c)
    with Cons.prems have "matchAtoms (q @ [Lit d, WordBoundary]) s (Suc i) = Some e"
      by (auto split: if_splits)
    then show ?thesis by (rule Cons.IH)
  next
    case SpacePlus
    with Cons.prems spacePlus_cases [of "q @ [Lit d, WordBoundary]" s i e]
    obtain k where "matchAtoms (q @ [Lit d, WordBoundary]) s (i + k) = Some e"
      by auto
    then show ?thesis by (rule Cons.IH)
  qed
qed

lemma wordBounded_match:
  assumes wb: "wordBounded p" and m: "matchAtoms p s j = Some e"
  shows "\<not> (0 < j \<and> isWordChar (s ! (j - 1))) \<and> \<not> (e < length s \<and> isWordChar (s ! e))"
proof -
  from wb obtain c q where p: "p = WordBoundary # Lit c # q" and c: "isWordChar c"
    by (auto simp: wordBounded_def split: list.splits atom.splits)
  from wb obtain d r where rp: "rev p = WordBoundary # Lit d # r" and d: "isWordChar d"
    by (auto simp: wordBounded_def split: list.splits atom.splits)
  from rp have "rev (rev p) = rev (WordBoundary # Lit d # r)" by simp
  then have p': "p = rev r @ [Lit d, WordBoundary]" by simp
  from m p have bj: "isWordBoundary s j" and lj: "j < length s"
      and cj: "canonicalize (s ! j) = canonicalize c"
    by (auto split: if_splits)
  from canonicalize_wordChar [OF cj] c have wj: "isWordChar (s ! j)" by simp
  from m p' matchAtoms_last_lit [of "rev r" d s j e]
  have be: "isWordBoundary s e" and e0: "0 < e" and le: "e \<le> length s"
      and ce: "canonicalize (s ! (e - 1)) = canonicalize d"
    by simp_all
  from canonicalize_wordChar [OF ce] d have we: "isWordChar (s ! (e - 1))" by simp
  from bj lj wj have start: "\<not> (0 < j \<and> isWordChar (s ! (j - 1)))"
    by (auto simp: isWordBoundary_def)
  from be e0 le we have "\<not> (e < length s \<and> isWordChar (s ! e))"
    by (auto simp: isWordBoundary_def)
  with start show ?thesis by simp
qed

lemma KEYWORDS_wordBounded_all: "list_all (\<lambda>kw. wordBounded (keywordRegExp kw)) (KEYWORDS c)"
  by (cases c)
    (simp_all add: KEYWORDS_eval wordBounded_def keywordRegExp_def includesSpace_def
       isWhiteSpace_def isWordChar_def)

lemma KEYWORDS_wordBounded: "kw \<in> set (KEYWORDS c) \<Longrightarrow> wordBounded (keywordRegExp kw)"
  using KEYWORDS_wordBounded_all [of c] by (simp add: list_all_iff)

lemma keyword_match_bounded:
  assumes "kw \<in> set (KEYWORDS c)" and "(j, e) \<in> set (matchFrom (keywordRegExp kw) s 0)"
  shows "j < e \<and> e \<le> length s \<and>
         \<not> (0 < j \<and> isWordChar (s ! (j - 1))) \<and> \<not> (e < length s \<and> isWordChar (s ! e))"
proof -
  from matchFrom_sound [OF assms(2)]
  have m: "matchAtoms (keywordRegExp kw) s j = Some e" and le: "e \<le> length s" by simp_all
  from keywordRegExp_consumes [OF KEYWORDS_nonempty [OF assms(1)] m] have "j < e" .
  with le wordBounded_match [OF KEYWORDS_wordBounded [OF assms(1)] m] show ?thesis by simp
qed


lemma trim_empty_iff: "trim s = [] \<longleftrightarrow> list_all isWhiteSpace s"
proof
  assume "list_all isWhiteSpace s"
  then show "trim s = []" by (rule trim_blank)
next
  assume t: "trim s = []"
  show "list_all isWhiteSpace s"
  proof (cases "dropWhile isWhiteSpace s")
    case Nil
    then show ?thesis by (simp add: dropWhile_eq_Nil_conv list_all_iff)
  next
    case (Cons x xs)
    then have "\<not> isWhiteSpace (hd (dropWhile isWhiteSpace s))"
      using hd_dropWhile [of isWhiteSpace s] by simp
    with Cons have nx: "\<not> isWhiteSpace x" by simp
    from t Cons have "\<forall>y \<in> set (x # xs). isWhiteSpace y"
      by (simp add: trim_def dropWhile_eq_Nil_conv)
    with nx show ?thesis by simp
  qed
qed

lemma lowerUnit_lowerAscii: "lowerUnit (lowerAscii c) = lowerUnit c"
  by (simp add: lowerUnit_def lowerAscii_def)

lemma toLowerCase_same:
  assumes "map lowerAscii t = map lowerAscii t'"
  shows "toLowerCase t = toLowerCase t'"
proof -
  have "\<And>u. toLowerCase (map lowerAscii u) = toLowerCase u"
    by (simp add: toLowerCase_def comp_def lowerUnit_lowerAscii)
  with assms show ?thesis by metis
qed

lemma blank_same:
  assumes "map lowerAscii t = map lowerAscii t'"
  shows "blankTranscript (JString t) = blankTranscript (JString t')"
proof -
  have "\<And>u. list_all isWhiteSpace (map lowerAscii u) = list_all isWhiteSpace u"
    by (simp add: list_all_iff isWhiteSpace_lowerAscii)
  with assms have "list_all isWhiteSpace t = list_all isWhiteSpace t'" by metis
  moreover from assms have "length t = length t'" by (rule map_eq_imp_length_eq)
  ultimately show ?thesis
    by (auto simp: blankTranscript_def trim_empty_iff)
qed

lemma analyze_same:
  assumes "map lowerAscii t = map lowerAscii t'"
  shows "analyzeTranscript (JString t) = analyzeTranscript (JString t')"
  by (simp add: analyzeTranscript_def blank_same [OF assms] toLowerCase_same [OF assms])

lemma matchFrom_same:
  assumes "map lowerAscii t = map lowerAscii t'"
  shows "matchFrom p t i = matchFrom p t' i"
  using matchFrom_lowerAscii [of p t i] matchFrom_lowerAscii [of p t' i] assms by simp

lemma placeOf_mkSegment:
  "length t = length t' \<Longrightarrow> placeOf (mkSegment c t m) = placeOf (mkSegment c t' m)"
  by (simp add: placeOf_def mkSegment_def slice_def)

lemma places_same:
  assumes "map lowerAscii t = map lowerAscii t'"
  shows "map placeOf (concat (map (\<lambda>c. concat (map (segmentsOfKeyword c t) (KEYWORDS c))) cs)) =
         map placeOf (concat (map (\<lambda>c. concat (map (segmentsOfKeyword c t') (KEYWORDS c))) cs))"
proof -
  from assms have len: "length t = length t'" by (rule map_eq_imp_length_eq)
  have kw: "\<And>c kw. map placeOf (segmentsOfKeyword c t kw) = map placeOf (segmentsOfKeyword c t' kw)"
    by (simp add: segmentsOfKeyword_def matchFrom_same [OF assms] placeOf_mkSegment [OF len])
  have kws: "\<And>c kws. map placeOf (concat (map (segmentsOfKeyword c t) kws)) =
      map placeOf (concat (map (segmentsOfKeyword c t') kws))"
  proof -
    fix c kws show "map placeOf (concat (map (segmentsOfKeyword c t) kws)) =
      map placeOf (concat (map (segmentsOfKeyword c t') kws))"
      by (induction kws) (simp_all add: kw)
  qed
  show ?thesis by (induction cs) (simp_all add: kws)
qed

lemma extract_same:
  assumes "map lowerAscii t = map lowerAscii t'"
  shows "\<exists>segs segs'. extractKeywordSegments (JString t) = Some segs \<and>
           extractKeywordSegments (JString t') = Some segs' \<and>
           map placeOf segs = map placeOf segs'"
proof (cases "blankTranscript (JString t)")
  case True
  with blank_same [OF assms] have "blankTranscript (JString t')" by simp
  with True show ?thesis by (simp add: blank_results)
next
  case False
  with blank_same [OF assms] have "\<not> blankTranscript (JString t')" by simp
  with False places_same [OF assms, of categories] show ?thesis
    by (simp add: extract_concat)
qed

lemma cat_sat_count: "countKeyword (toLowerCase (js ''the cat sat'')) (js ''at'') = 0"
  by (simp add: toLowerCase_def lowerUnit_def eval_defs)

lemma cat_sat_segments: "execLoop (escapedRegExp (js ''at'')) c (js ''the cat sat'') 0 [] = Some []"
proof -
  have ne: "js ''at'' \<noteq> []" by (simp add: js_def)
  have loop: "execLoop (escapedRegExp (js ''at'')) c (js ''the cat sat'') 0 [] =
      Some ([] @ map (mkSegment c (js ''the cat sat''))
                   (matchFrom (escapedRegExp (js ''at'')) (js ''the cat sat'') 0))"
    by (rule execLoop_matchFrom) (rule escapedRegExp_consumes [OF ne])
  have "matchFrom (escapedRegExp (js ''at'')) (js ''the cat sat'') 0 = []"
    by (simp add: eval_defs)
  with loop show ?thesis by simp
qed

lemma firstSome_greedy:
  assumes "1 \<le> n" and "f n = Some e"
  shows "firstSome (map f (rev [1 ..< Suc n])) = Some e"
proof -
  from assms(1) have "[1 ..< Suc n] = [1 ..< n] @ [n]" by simp
  with assms(2) show ?thesis by simp
qed

lemma spaceRun_append:
  assumes "list_all isWhiteSpace r" and "rest = [] \<or> \<not> isWhiteSpace (hd rest)"
  shows "spaceRun (us @ r @ rest) (length us) = length r"
proof -
  from assms(2) have "takeWhile isWhiteSpace rest = []"
    by (cases rest) auto
  with assms(1) have "takeWhile isWhiteSpace (r @ rest) = r"
    by (simp add: takeWhile_append2 list_all_iff)
  then show ?thesis by (simp add: spaceRun_def)
qed

lemma last_dropWhile: "dropWhile P xs \<noteq> [] \<Longrightarrow> last (dropWhile P xs) = last xs"
  by (induction xs) (auto split: if_splits)

lemma phrase_match:
  assumes "phraseVariant kw tx" and "0x5C \<notin> set kw"
    and "kw \<noteq> [] \<longrightarrow> \<not> isWhiteSpace (last kw)"
    and "matchAtoms q (us @ tx @ vs) (length us + length tx) = Some e"
  shows "matchAtoms (phraseAtoms kw @ q) (us @ tx @ vs) (length us) = Some e"
  using assms
proof (induction kw tx arbitrary: us rule: phraseVariant.induct)
  case (1 tx)
  then show ?case by simp
next
  case (2 k ks)
  then show ?case by simp
next
  case (3 k ks c cs)
  show ?case
  proof (cases "isWhiteSpace k")
    case True
    let ?r = "c # takeWhile isWhiteSpace cs"
    let ?tx = "dropWhile isWhiteSpace cs"
    let ?kw = "dropWhile isWhiteSpace ks"
    from "3.prems"(1) True have wc: "isWhiteSpace c" and pv: "phraseVariant ?kw ?tx" by simp_all
    have split: "c # cs = ?r @ ?tx" by simp
    from "3.prems"(3) True have kwne: "?kw \<noteq> []"
      by (cases ks) (auto simp: dropWhile_eq_Nil_conv split: if_splits)
    with pv have txtne: "?tx \<noteq> []" by (cases ?kw; cases ?tx) simp_all
    then have hd: "\<not> isWhiteSpace (hd ?tx)" by (rule hd_dropWhile)
    have bs: "0x5C \<notin> set ?kw" using "3.prems"(2) by (auto dest: set_dropWhileD)
    from kwne have "ks \<noteq> []" by auto
    with "3.prems"(3) kwne have lst: "?kw \<noteq> [] \<longrightarrow> \<not> isWhiteSpace (last ?kw)"
      by (simp add: last_dropWhile)
    have s: "us @ (c # cs) @ vs = (us @ ?r) @ ?tx @ vs"
      by (simp only: split) simp
    have "length (takeWhile isWhiteSpace cs) + length (dropWhile isWhiteSpace cs) = length cs"
      by (simp only: length_append [symmetric] takeWhile_dropWhile_id)
    then have len: "length us + length (c # cs) = length (us @ ?r) + length ?tx"
      by simp
    from "3.prems"(4) have "matchAtoms q ((us @ ?r) @ ?tx @ vs) (length (us @ ?r) + length ?tx) = Some e"
      by (simp only: s len)
    from "3.IH"(1) [OF True pv bs lst this]
    have rest: "matchAtoms (phraseAtoms ?kw @ q) ((us @ ?r) @ ?tx @ vs) (length (us @ ?r)) = Some e" .
    have run: "spaceRun (us @ ?r @ (?tx @ vs)) (length us) = length ?r"
      by (rule spaceRun_append) (use wc txtne hd in \<open>auto simp: list_all_iff dest: set_takeWhileD\<close>)
    have s2: "us @ (c # cs) @ vs = us @ ?r @ (?tx @ vs)"
      by (simp only: split) simp
    from run have run': "spaceRun (us @ (c # cs) @ vs) (length us) = length ?r"
      by (simp only: s2)
    from rest have rest': "matchAtoms (phraseAtoms ?kw @ q) (us @ (c # cs) @ vs) (length us + length ?r) = Some e"
      by (simp only: s) simp
    have "matchAtoms (SpacePlus # (phraseAtoms ?kw @ q)) (us @ (c # cs) @ vs) (length us) = Some e"
      unfolding matchAtoms.simps run'
      by (rule firstSome_greedy) (simp, rule rest')
    with True show ?thesis by simp
  next
    case False
    from "3.prems"(1) False have cc: "canonicalize c = canonicalize k" and pv: "phraseVariant ks cs"
      by simp_all
    from "3.prems"(2) have k: "k \<noteq> 0x5C" and bs: "0x5C \<notin> set ks" by auto
    from "3.prems"(3) have lst: "ks \<noteq> [] \<longrightarrow> \<not> isWhiteSpace (last ks)" by auto
    have s: "us @ (c # cs) @ vs = (us @ [c]) @ cs @ vs" by simp
    from "3.prems"(4) have "matchAtoms q ((us @ [c]) @ cs @ vs) (length (us @ [c]) + length cs) = Some e"
      by simp
    from "3.IH"(2) [OF False pv bs lst this]
    have "matchAtoms (phraseAtoms ks @ q) (us @ (c # cs) @ vs) (Suc (length us)) = Some e"
      by simp
    with False k cc show ?thesis by simp
  qed
qed


lemma wordChar_not_space: "isWordChar c \<Longrightarrow> \<not> isWhiteSpace c"
  by (auto simp: isWordChar_def isWhiteSpace_def)

lemma wordChar_not_backslash: "isWordChar c \<Longrightarrow> c \<noteq> 0x5C"
  by (auto simp: isWordChar_def)

lemma phraseVariant_last:
  assumes "phraseVariant kw tx" and "kw \<noteq> []" and "\<not> isWhiteSpace (last kw)"
  shows "tx \<noteq> [] \<and> canonicalize (last tx) = canonicalize (last kw)"
  using assms
proof (induction kw tx rule: phraseVariant.induct)
  case (1 tx)
  then show ?case by simp
next
  case (2 k ks)
  then show ?case by simp
next
  case (3 k ks c cs)
  show ?case
  proof (cases "isWhiteSpace k")
    case True
    let ?tx = "dropWhile isWhiteSpace cs"
    let ?kw = "dropWhile isWhiteSpace ks"
    from "3.prems"(1) True have pv: "phraseVariant ?kw ?tx" by simp
    from "3.prems"(3) True have kwne: "?kw \<noteq> []"
      by (cases ks) (auto simp: dropWhile_eq_Nil_conv split: if_splits)
    then have ks: "ks \<noteq> []" by auto
    with "3.prems"(3) kwne have "\<not> isWhiteSpace (last ?kw)" by (simp add: last_dropWhile)
    from "3.IH"(1) [OF True pv kwne this]
    have txne: "?tx \<noteq> []" and cl: "canonicalize (last ?tx) = canonicalize (last ?kw)" by simp_all
    from txne have cs: "cs \<noteq> []" by auto
    from cl txne kwne cs ks show ?thesis by (simp add: last_dropWhile)
  next
    case False
    from "3.prems"(1) False have cc: "canonicalize c = canonicalize k" and pv: "phraseVariant ks cs"
      by simp_all
    show ?thesis
    proof (cases ks)
      case Nil
      with pv cc show ?thesis by simp
    next
      case (Cons k' ks')
      with "3.prems"(3) have "\<not> isWhiteSpace (last ks)" by simp
      from "3.IH"(2) [OF False pv _ this] Cons show ?thesis by simp
    qed
  qed
qed

lemma phrase_whole:
  assumes plain: "plainKeyword kw" and sp: "includesSpace kw"
    and first: "isWordChar (hd kw)" and lastw: "isWordChar (last kw)"
    and pv: "phraseVariant kw tx"
  shows "matchFrom (keywordRegExp kw) tx 0 = [(0, length tx)]"
proof -
  from plain obtain k ks where kw: "kw = k # ks" by (cases kw) (simp_all add: plainKeyword_def)
  from first kw have wk: "isWordChar k" by simp
  then have nk: "\<not> isWhiteSpace k" and bk: "k \<noteq> 0x5C"
    by (simp_all add: wordChar_not_space wordChar_not_backslash)
  from plain have nobs: "0x5C \<notin> set kw"
    by (auto simp: plainKeyword_def list_all_iff syntaxChars_def)
  from lastw have nl: "\<not> isWhiteSpace (last kw)" by (rule wordChar_not_space)
  from pv kw nk obtain c cs where tx: "tx = c # cs" and cc: "canonicalize c = canonicalize k"
    by (cases tx) simp_all
  from canonicalize_wordChar [OF cc] wk have wc: "isWordChar c" by simp
  from phraseVariant_last [OF pv _ nl] kw
  have cl: "canonicalize (last tx) = canonicalize (last kw)" by simp
  from canonicalize_wordChar [OF cl] lastw have wl: "isWordChar (last tx)" by simp
  let ?n = "length tx"
  from tx have n0: "0 < ?n" by simp
  from wc tx have b0: "isWordBoundary tx 0" by (simp add: isWordBoundary_def)
  from tx have "tx \<noteq> []" by simp
  then have "last tx = tx ! (?n - 1)" by (rule last_conv_nth)
  with wl n0 have bn: "isWordBoundary tx ?n"
    by (simp add: isWordBoundary_def)
  have p: "keywordRegExp kw = WordBoundary # phraseAtoms kw @ [WordBoundary]"
    using sp by (simp add: keywordRegExp_def)
  have p': "keywordRegExp kw = WordBoundary # Lit k # phraseAtoms ks @ [WordBoundary]"
    using p kw nk bk by simp
  from bn have "matchAtoms [WordBoundary] ([] @ tx @ []) (length ([] :: js_string) + ?n) = Some ?n"
    by simp
  from phrase_match [OF pv nobs _ this] nl
  have "matchAtoms (phraseAtoms kw @ [WordBoundary]) tx 0 = Some ?n" by simp
  with b0 p have m0: "matchAtoms (keywordRegExp kw) tx 0 = Some ?n" by simp
  then have e0: "regexExec (keywordRegExp kw) tx 0 = Some (0, ?n)"
    by (subst regexExec.simps) simp
  have mn: "matchAtoms (keywordRegExp kw) tx ?n = None"
    by (simp add: p')
  have en: "regexExec (keywordRegExp kw) tx ?n = None"
    by (subst regexExec.simps, subst regexExec.simps) (simp add: mn)
  have "matchFrom (keywordRegExp kw) tx ?n = []"
    by (subst matchFrom.simps) (simp add: en)
  with e0 n0 show ?thesis
    by (subst matchFrom.simps) simp
qed

lemma KEYWORDS_letters_all: "list_all (\<lambda>kw. isWordChar (hd kw) \<and> isWordChar (last kw)) (KEYWORDS c)"
  by (cases c) (simp_all add: KEYWORDS_eval isWordChar_def)

lemma KEYWORDS_letters: "kw \<in> set (KEYWORDS c) \<Longrightarrow> isWordChar (hd kw) \<and> isWordChar (last kw)"
  using KEYWORDS_letters_all [of c] by (simp add: list_all_iff)

lemma taxonomy_phrase:
  assumes "kw \<in> set (KEYWORDS c)" and "includesSpace kw" and "phraseVariant kw tx"
  shows "matchFrom (keywordRegExp kw) tx 0 = [(0, length tx)] \<and>
         matchFrom (escapedRegExp kw) tx 0 = [(0, length tx)]"
  using phrase_whole [OF KEYWORDS_plain [OF assms(1)] assms(2) _ _ assms(3)]
    KEYWORDS_letters [OF assms(1)] escapedRegExp_plain [OF KEYWORDS_plain [OF assms(1)]]
  by simp

lemma once_variant:
  "js ''once upon a time'' \<in> set (KEYWORDS Literature) \<and> includesSpace (js ''once upon a time'') \<and>
   phraseVariant (js ''once upon a time'')
     (js ''Once'' @ [0x09, 0x0A] @ js ''UPON'' @ js ''   '' @ js ''a'' @ [0xA0] @ js ''time'')"
  by (simp add: KEYWORDS_eval includesSpace_def js_def isWhiteSpace_def canonicalize_def)

lemma once_not_blank: "\<not> blankTranscript (JString (js ''once upon a time''))"
  by (simp add: blankTranscript_def trim_def isWhiteSpace_def js_def)

lemma once_count:
  "sum_list (map (countKeyword (toLowerCase (js ''once upon a time''))) (KEYWORDS Literature)) = 2"
  by (simp add: toLowerCase_def lowerUnit_def KEYWORDS_eval eval_defs)


lemma count_by_matches:
  assumes "\<not> blankTranscript (JString s)"
  shows "countOf (analyzeTranscript (JString s)) c =
           sum_list (map (\<lambda>kw. length (matchFrom (keywordRegExp kw) (toLowerCase s) 0)) (KEYWORDS c))"
proof -
  have "countKeyword (toLowerCase s) = (\<lambda>kw. length (matchFrom (keywordRegExp kw) (toLowerCase s) 0))"
    by (rule ext) (rule countKeyword_length)
  then show ?thesis by (simp add: analyze_countOf [OF assms])
qed

lemma talk_cases: "map lowerAscii (js ''Talk'') = map lowerAscii (js ''tALK'')"
  by (simp add: js_def lowerAscii_def)

lemma answer_match:
  "js ''answer'' \<in> set (KEYWORDS Science) \<and>
   (3, 9) \<in> set (matchFrom (keywordRegExp (js ''answer'')) (js ''An answer.'') 0)"
  by (simp add: KEYWORDS_eval eval_defs)

lemma spaceRun_white:
  assumes "k < spaceRun s i"
  shows "isWhiteSpace (s ! (i + k))"
proof -
  let ?r = "takeWhile isWhiteSpace (drop i s)"
  from assms have k: "k < length ?r" by (simp add: spaceRun_def)
  then have "?r ! k \<in> set ?r" by (rule nth_mem)
  then have w: "isWhiteSpace (?r ! k)" by (rule set_takeWhileD [THEN conjunct2])
  from k have eq: "?r ! k = drop i s ! k" by (rule takeWhile_nth)
  have "length ?r \<le> length (drop i s)" by (rule length_takeWhile_le)
  with k have "i \<le> length s" by simp
  with w eq show ?thesis by simp
qed

lemma spaceRun_split:
  "drop i s = takeWhile isWhiteSpace (drop i s) @ drop (i + spaceRun s i) s"
proof -
  have "drop (i + spaceRun s i) s = drop (spaceRun s i) (drop i s)"
    by (simp add: add.commute)
  also have "\<dots> = dropWhile isWhiteSpace (drop i s)"
    by (simp add: spaceRun_def dropWhile_eq_drop)
  finally show ?thesis by simp
qed

lemma phrase_sound:
  assumes "0x5C \<notin> set kw" and "kw \<noteq> [] \<longrightarrow> \<not> isWhiteSpace (last kw)"
    and "matchAtoms (phraseAtoms kw @ q) s i = Some e"
  shows "\<exists>tx rest. drop i s = tx @ rest \<and> phraseVariant kw tx \<and>
           matchAtoms q s (i + length tx) = Some e"
  using assms
proof (induction "length kw" arbitrary: kw i rule: less_induct)
  case less
  note IH = less.hyps and prems = less.prems
  show ?case
  proof (cases kw)
    case Nil
    with prems show ?thesis by simp
  next
    case (Cons k ks)
    show ?thesis
    proof (cases "isWhiteSpace k")
      case False
      from prems(1) Cons have k: "k \<noteq> 0x5C" and bs: "0x5C \<notin> set ks" by auto
      from prems(2) Cons have lst: "ks \<noteq> [] \<longrightarrow> \<not> isWhiteSpace (last ks)" by auto
      from prems(3) Cons False k
      have li: "i < length s" and cc: "canonicalize (s ! i) = canonicalize k"
        and m: "matchAtoms (phraseAtoms ks @ q) s (Suc i) = Some e"
        by (auto split: if_splits)
      have "length ks < length kw" using Cons by simp
      from IH [OF this bs lst m]
      obtain tx rest where d: "drop (Suc i) s = tx @ rest" and pv: "phraseVariant ks tx"
        and mq: "matchAtoms q s (Suc i + length tx) = Some e"
        by blast
      from li d have "drop i s = (s ! i # tx) @ rest"
        by (simp add: Cons_nth_drop_Suc [symmetric])
      moreover from pv cc False Cons have "phraseVariant kw (s ! i # tx)" by simp
      moreover from mq have "matchAtoms q s (i + length (s ! i # tx)) = Some e" by simp
      ultimately show ?thesis by blast
    next
      case True
      let ?kw = "dropWhile isWhiteSpace ks"
      from prems(2) True Cons have kwne: "?kw \<noteq> []"
        by (cases ks) (auto simp: dropWhile_eq_Nil_conv split: if_splits)
      then obtain k2 ks2 where kw2: "?kw = k2 # ks2" by (cases ?kw) auto
      from kwne have nk2: "\<not> isWhiteSpace (hd ?kw)" by (rule hd_dropWhile)
      with kw2 have nk2': "\<not> isWhiteSpace k2" by simp
      have bs: "0x5C \<notin> set ?kw" using prems(1) Cons by (auto dest: set_dropWhileD)
      with kw2 have k2: "k2 \<noteq> 0x5C" by auto
      from kwne have "ks \<noteq> []" by auto
      with prems(2) Cons kwne have lst: "?kw \<noteq> [] \<longrightarrow> \<not> isWhiteSpace (last ?kw)"
        by (simp add: last_dropWhile)
      from prems(3) Cons True
      have "matchAtoms (SpacePlus # (phraseAtoms ?kw @ q)) s i = Some e" by simp
      from spacePlus_cases [OF this]
      obtain n where n1: "1 \<le> n" and nr: "n \<le> spaceRun s i"
        and m: "matchAtoms (phraseAtoms ?kw @ q) s (i + n) = Some e"
        by blast
      from m kw2 nk2' k2 have cc: "canonicalize (s ! (i + n)) = canonicalize k2"
        by (auto split: if_splits)
      from canonicalize_whiteSpace [OF cc] nk2' have "\<not> isWhiteSpace (s ! (i + n))" by simp
      with spaceRun_white [of n s i] nr have n: "n = spaceRun s i" by (cases "n < spaceRun s i") auto
      have "length ?kw < length kw" using Cons length_dropWhile_le [of isWhiteSpace ks] by simp
      from IH [OF this bs lst m]
      obtain tx rest where d: "drop (i + n) s = tx @ rest" and pv: "phraseVariant ?kw tx"
        and mq: "matchAtoms q s (i + n + length tx) = Some e"
        by blast
      let ?r = "takeWhile isWhiteSpace (drop i s)"
      from n n1 have rl: "length ?r = n" by (simp add: spaceRun_def)
      with n1 obtain c r' where r: "?r = c # r'" by (cases ?r) auto
      have wr: "\<forall>x \<in> set ?r. isWhiteSpace x" by (auto dest: set_takeWhileD)
      with r have wc: "isWhiteSpace c" and wr': "\<forall>x \<in> set r'. isWhiteSpace x" by simp_all
      from pv kw2 nk2' obtain c2 cs2 where tx: "tx = c2 # cs2" and c2: "canonicalize c2 = canonicalize k2"
        by (cases tx) simp_all
      from canonicalize_whiteSpace [OF c2] nk2' have nc2: "\<not> isWhiteSpace c2" by simp
      from wr' nc2 tx have dw: "dropWhile isWhiteSpace (r' @ tx) = tx"
        by (induction r') simp_all
      from spaceRun_split [of i s] d n have "drop i s = (?r @ tx) @ rest" by simp
      moreover have "phraseVariant kw (?r @ tx)"
        using Cons True wc pv dw by (simp add: r)
      moreover from mq rl have "matchAtoms q s (i + length (?r @ tx)) = Some e"
        by (simp add: add.assoc)
      ultimately show ?thesis by blast
    qed
  qed
qed


lemma KEYWORDS_pattern_all:
  "list_all (\<lambda>kw. keywordRegExp kw = WordBoundary # phraseAtoms kw @ [WordBoundary]) (KEYWORDS c)"
  by (cases c) (simp_all add: KEYWORDS_eval keywordRegExp_def includesSpace_def isWhiteSpace_def)

lemma KEYWORDS_pattern:
  "kw \<in> set (KEYWORDS c) \<Longrightarrow> keywordRegExp kw = WordBoundary # phraseAtoms kw @ [WordBoundary]"
  using KEYWORDS_pattern_all [of c] by (simp add: list_all_iff)

lemma keyword_match_variant:
  assumes kw: "kw \<in> set (KEYWORDS c)" and m: "matchAtoms (keywordRegExp kw) s j = Some e"
  shows "phraseVariant kw (slice s j e)"
proof -
  from KEYWORDS_plain [OF kw] have nobs: "0x5C \<notin> set kw"
    by (auto simp: plainKeyword_def list_all_iff syntaxChars_def)
  from KEYWORDS_letters [OF kw] have nl: "kw \<noteq> [] \<longrightarrow> \<not> isWhiteSpace (last kw)"
    by (simp add: wordChar_not_space)
  from m KEYWORDS_pattern [OF kw]
  have "matchAtoms (phraseAtoms kw @ [WordBoundary]) s j = Some e"
    by (auto split: if_splits)
  from phrase_sound [OF nobs nl this]
  obtain tx rest where d: "drop j s = tx @ rest" and pv: "phraseVariant kw tx"
    and mq: "matchAtoms [WordBoundary] s (j + length tx) = Some e"
    by blast
  from mq have "e = j + length tx" by (auto split: if_splits)
  with d have "slice s j e = tx" by (simp add: slice_def)
  with pv show ?thesis by simp
qed

lemma all_segments_sound:
  assumes "seg \<in> set (concat (map (\<lambda>c'. concat (map (segmentsOfKeyword c' t) (KEYWORDS c'))) categories))"
  shows "startIndex seg < endIndex seg \<and> endIndex seg \<le> length t \<and>
         segText seg = slice t (startIndex seg) (endIndex seg) \<and>
         \<not> (0 < startIndex seg \<and> isWordChar (t ! (startIndex seg - 1))) \<and>
         \<not> (endIndex seg < length t \<and> isWordChar (t ! endIndex seg)) \<and>
         (\<exists>kw \<in> set (KEYWORDS (category seg)). phraseVariant kw (segText seg))"
proof -
  from assms obtain c kw m where kw: "kw \<in> set (KEYWORDS c)"
      and m: "m \<in> set (matchFrom (escapedRegExp kw) t 0)" and seg: "seg = mkSegment c t m"
    by (auto simp: segmentsOfKeyword_def)
  obtain j e where je: "m = (j, e)" by (cases m)
  from m je escapedRegExp_plain [OF KEYWORDS_plain [OF kw]]
  have mk: "(j, e) \<in> set (matchFrom (keywordRegExp kw) t 0)" by simp
  from keyword_match_bounded [OF kw mk]
  have b: "j < e" "e \<le> length t" "\<not> (0 < j \<and> isWordChar (t ! (j - 1)))"
    "\<not> (e < length t \<and> isWordChar (t ! e))" by simp_all
  from matchFrom_sound [OF mk] have "matchAtoms (keywordRegExp kw) t j = Some e" by simp
  from keyword_match_variant [OF kw this] have pv: "phraseVariant kw (slice t j e)" .
  from b have f: "startIndex seg = j" "endIndex seg = e" "category seg = c" "segText seg = slice t j e"
    using seg je by (simp_all add: mkSegment_def slice_def)
  from b pv kw show ?thesis unfolding f by blast
qed

lemma extract_sound:
  assumes "extractKeywordSegments (JString t) = Some segs" and "seg \<in> set segs"
  shows "startIndex seg < endIndex seg \<and> endIndex seg \<le> length t \<and>
         segText seg = slice t (startIndex seg) (endIndex seg) \<and>
         \<not> (0 < startIndex seg \<and> isWordChar (t ! (startIndex seg - 1))) \<and>
         \<not> (endIndex seg < length t \<and> isWordChar (t ! endIndex seg)) \<and>
         (\<exists>kw \<in> set (KEYWORDS (category seg)). phraseVariant kw (segText seg))"
proof (cases "blankTranscript (JString t)")
  case True
  with assms show ?thesis by (simp add: blank_results)
next
  case False
  from assms extract_concat [OF False] show ?thesis
    by (intro all_segments_sound) simp
qed

lemma phraseVariant_units:
  "phraseVariant kw tx \<Longrightarrow>
     \<forall>u \<in> set tx. isWhiteSpace u \<or> (\<exists>k \<in> set kw. canonicalize u = canonicalize k)"
proof (induction kw tx rule: phraseVariant.induct)
  case (1 tx)
  then show ?case by simp
next
  case (2 k ks)
  then show ?case by simp
next
  case (3 k ks c cs)
  show ?case
  proof (cases "isWhiteSpace k")
    case True
    with "3.prems" have wc: "isWhiteSpace c"
      and pv: "phraseVariant (dropWhile isWhiteSpace ks) (dropWhile isWhiteSpace cs)" by simp_all
    from "3.IH"(1) [OF True pv]
    have ih: "\<forall>u \<in> set (dropWhile isWhiteSpace cs). isWhiteSpace u \<or>
        (\<exists>k \<in> set (dropWhile isWhiteSpace ks). canonicalize u = canonicalize k)" .
    have "set cs = set (takeWhile isWhiteSpace cs) \<union> set (dropWhile isWhiteSpace cs)"
      by (metis set_append takeWhile_dropWhile_id)
    with ih wc show ?thesis
      by (auto dest: set_takeWhileD set_dropWhileD)
  next
    case False
    with "3.prems" have cc: "canonicalize c = canonicalize k" and pv: "phraseVariant ks cs"
      by simp_all
    from "3.IH"(2) [OF False pv] cc show ?thesis by auto
  qed
qed

lemma canonicalize_ascii: "canonicalize u = canonicalize k \<Longrightarrow> k < 128 \<Longrightarrow> u < 128"
  by (auto simp: canonicalize_def split: if_splits)

lemma variant_lower:
  assumes "phraseVariant kw tx" and "plainKeyword kw"
  shows "toLowerCase tx = map lowerAscii tx"
proof (rule toLowerCase_lowerAscii, rule ballI)
  fix u assume "u \<in> set tx"
  with phraseVariant_units [OF assms(1)]
  have "isWhiteSpace u \<or> (\<exists>k \<in> set kw. canonicalize u = canonicalize k)" by blast
  moreover from assms(2) have "\<forall>k \<in> set kw. k < 128" by (simp add: plainKeyword_def list_all_iff)
  ultimately have "isWhiteSpace u \<or> u < 128" by (auto dest: canonicalize_ascii)
  then show "u \<noteq> 0x130 \<and> u \<noteq> 0x212A" by (auto simp: isWhiteSpace_def)
qed


lemma variant_not_blank:
  assumes kw: "kw \<in> set (KEYWORDS c)" and pv: "phraseVariant kw tx"
  shows "\<not> blankTranscript (JString tx)"
proof -
  from KEYWORDS_plain [OF kw] obtain k ks where k: "kw = k # ks"
    by (cases kw) (simp_all add: plainKeyword_def)
  from KEYWORDS_letters [OF kw] k have "\<not> isWhiteSpace k" by (simp add: wordChar_not_space)
  with pv k obtain x xs where tx: "tx = x # xs" and cc: "canonicalize x = canonicalize k"
    by (cases tx) simp_all
  from canonicalize_whiteSpace [OF cc] \<open>\<not> isWhiteSpace k\<close> have "\<not> isWhiteSpace x" by simp
  with tx show ?thesis
    by (simp add: blankTranscript_def trim_empty_iff)
qed

lemma phrase_located:
  assumes kw: "kw \<in> set (KEYWORDS c)" and sp: "includesSpace kw" and pv: "phraseVariant kw tx"
  shows "\<exists>segs. extractKeywordSegments (JString tx) = Some segs \<and>
           \<lparr> segText = tx, category = c, startIndex = 0, endIndex = length tx \<rparr> \<in> set segs"
proof -
  from taxonomy_phrase [OF kw sp pv]
  have "(0, length tx) \<in> set (matchFrom (escapedRegExp kw) tx 0)" by simp
  from segment_in_all [OF kw this]
  have "mkSegment c tx (0, length tx) \<in>
      set (concat (map (\<lambda>c'. concat (map (segmentsOfKeyword c' tx) (KEYWORDS c'))) categories))" .
  moreover have "mkSegment c tx (0, length tx) =
      \<lparr> segText = tx, category = c, startIndex = 0, endIndex = length tx \<rparr>"
    by (simp add: mkSegment_def slice_def)
  ultimately show ?thesis
    by (simp add: extract_concat [OF variant_not_blank [OF kw pv]])
qed

lemma phrase_counted:
  assumes kw: "kw \<in> set (KEYWORDS c)" and sp: "includesSpace kw" and pv: "phraseVariant kw tx"
  shows "1 \<le> countOf (analyzeTranscript (JString tx)) c"
proof -
  from taxonomy_phrase [OF kw sp pv]
  have "matchFrom (keywordRegExp kw) tx 0 = [(0, length tx)]" by simp
  then have one: "countKeyword (toLowerCase tx) kw = 1"
    by (simp add: countKeyword_length variant_lower [OF pv KEYWORDS_plain [OF kw]] matchFrom_lowerAscii)
  from count_list_pos [OF kw] have "1 \<le> count_list (KEYWORDS c) kw" .
  with one have "1 \<le> count_list (KEYWORDS c) kw * countKeyword (toLowerCase tx) kw" by simp
  also have "\<dots> \<le> countOf (analyzeTranscript (JString tx)) c"
    by (rule count_ge_duplicates [OF variant_not_blank [OF kw pv]])
  finally show ?thesis .
qed

lemma regexExec_finds:
  assumes "i \<le> j" and "j \<le> length s" and "matchAtoms p s j = Some e"
  shows "\<exists>j' e'. regexExec p s i = Some (j', e') \<and> j' \<le> j"
  using assms
proof (induction p s i rule: regexExec.induct)
  case (1 p s i)
  show ?case
  proof (cases "matchAtoms p s i")
    case (Some e')
    with "1.prems" show ?thesis by (subst regexExec.simps) auto
  next
    case None
    with "1.prems" have "i \<noteq> j" by auto
    with "1.prems" have le: "Suc i \<le> j" and nl: "\<not> length s < i" by simp_all
    from "1.IH" [OF nl None le "1.prems"(2,3)] nl None show ?thesis
      by (subst regexExec.simps) simp
  qed
qed

lemma phrase_found:
  assumes kw: "kw \<in> set (KEYWORDS c)" and sp: "includesSpace kw" and pv: "phraseVariant kw tx"
    and before: "us = [] \<or> \<not> isWordChar (last us)"
    and after: "vs = [] \<or> \<not> isWordChar (hd vs)"
  shows "\<exists>segs. extractKeywordSegments (JString (us @ tx @ vs)) = Some segs \<and>
           (\<exists>seg \<in> set segs. category seg = c \<and> startIndex seg \<le> length us \<and>
              phraseVariant kw (segText seg))"
proof -
  let ?t = "us @ tx @ vs"
  let ?p = "keywordRegExp kw"
  note plain = KEYWORDS_plain [OF kw]
  from plain obtain k ks where k: "kw = k # ks" by (cases kw) (simp_all add: plainKeyword_def)
  from KEYWORDS_letters [OF kw] have wf: "isWordChar (hd kw)" and wl: "isWordChar (last kw)"
    by simp_all
  from wf k have nk: "\<not> isWhiteSpace k" by (simp add: wordChar_not_space)
  from plain have nobs: "0x5C \<notin> set kw"
    by (auto simp: plainKeyword_def list_all_iff syntaxChars_def)
  from wl have nl: "kw \<noteq> [] \<longrightarrow> \<not> isWhiteSpace (last kw)" by (simp add: wordChar_not_space)
  from pv k nk obtain x xs where tx: "tx = x # xs" and cc: "canonicalize x = canonicalize k"
    by (cases tx) simp_all
  from canonicalize_wordChar [OF cc] wf k have wx: "isWordChar x" by simp
  from phraseVariant_last [OF pv] k wl
  have cl: "canonicalize (last tx) = canonicalize (last kw)" by (simp add: wordChar_not_space)
  from canonicalize_wordChar [OF cl] wl have wlt: "isWordChar (last tx)" by simp
  from tx have txne: "tx \<noteq> []" by simp
  have at_start: "?t ! length us = x" using tx by simp
  have b0: "isWordBoundary ?t (length us)"
  proof (cases us)
    case Nil
    with wx tx show ?thesis by (simp add: isWordBoundary_def)
  next
    case (Cons u us')
    then have "us \<noteq> []" by simp
    then have "?t ! (length us - 1) = last us"
      by (simp add: nth_append last_conv_nth)
    with before \<open>us \<noteq> []\<close> wx at_start tx show ?thesis
      by (simp add: isWordBoundary_def)
  qed
  have before_end: "?t ! (length us + length tx - 1) = last tx"
  proof -
    from txne have pos: "0 < length tx" by simp
    from txne have idx: "length us + length tx - 1 = length us + (length tx - 1)"
      by (cases tx) simp_all
    have "?t ! (length us + (length tx - 1)) = (tx @ vs) ! (length tx - 1)"
      by (rule nth_append_length_plus)
    also from pos have "\<dots> = tx ! (length tx - 1)" by (simp add: nth_append)
    also from txne have "\<dots> = last tx" by (simp add: last_conv_nth)
    finally show ?thesis by (simp only: idx)
  qed
  have bn: "isWordBoundary ?t (length us + length tx)"
  proof (cases vs)
    case Nil
    with wlt before_end txne show ?thesis by (simp add: isWordBoundary_def)
  next
    case (Cons v vs')
    have "?t ! (length us + length tx) = hd vs"
      using Cons by (simp add: nth_append)
    with after Cons wlt before_end txne show ?thesis
      by (simp add: isWordBoundary_def)
  qed
  from bn have "matchAtoms [WordBoundary] ?t (length us + length tx) = Some (length us + length tx)"
    by simp
  from phrase_match [OF pv nobs nl this]
  have "matchAtoms (phraseAtoms kw @ [WordBoundary]) ?t (length us) = Some (length us + length tx)" .
  with b0 KEYWORDS_pattern [OF kw]
  have m: "matchAtoms ?p ?t (length us) = Some (length us + length tx)" by simp
  have "\<exists>j' e'. regexExec ?p ?t 0 = Some (j', e') \<and> j' \<le> length us"
    by (rule regexExec_finds [OF _ _ m]) simp_all
  then obtain j' e' where ex: "regexExec ?p ?t 0 = Some (j', e')" and j': "j' \<le> length us"
    by blast
  then have mem: "(j', e') \<in> set (matchFrom ?p ?t 0)"
    by (subst matchFrom.simps) simp
  from regexExec_bounds [OF ex] have mj: "matchAtoms ?p ?t j' = Some e'" by simp
  from matchFrom_sound [OF mem] have le: "j' \<le> e'" "e' \<le> length ?t" by simp_all
  from keyword_match_variant [OF kw mj] have v: "phraseVariant kw (slice ?t j' e')" .
  from mem escapedRegExp_plain [OF plain]
  have "(j', e') \<in> set (matchFrom (escapedRegExp kw) ?t 0)" by simp
  from segment_in_all [OF kw this]
  have inall: "mkSegment c ?t (j', e') \<in>
      set (concat (map (\<lambda>c'. concat (map (segmentsOfKeyword c' ?t) (KEYWORDS c'))) categories))" .
  have nb: "\<not> blankTranscript (JString ?t)"
  proof -
    from wx have "\<not> isWhiteSpace x" by (rule wordChar_not_space)
    with tx show ?thesis by (auto simp: blankTranscript_def trim_empty_iff list_all_iff)
  qed
  have f: "category (mkSegment c ?t (j', e')) = c" "startIndex (mkSegment c ?t (j', e')) = j'"
    "segText (mkSegment c ?t (j', e')) = slice ?t j' e'"
    by (simp_all add: mkSegment_def)
  from inall v j' f show ?thesis
    unfolding extract_concat [OF nb] by (intro exI conjI bexI) (rule refl, simp_all)
qed


lemma once_segments_science:
  "concat (map (segmentsOfKeyword Science (js ''once upon a time'')) (KEYWORDS Science)) = []"
  unfolding segments_keywordRegExp by (simp add: KEYWORDS_eval eval_defs)

lemma once_segments_social:
  "concat (map (segmentsOfKeyword Social (js ''once upon a time'')) (KEYWORDS Social)) = []"
  unfolding segments_keywordRegExp by (simp add: KEYWORDS_eval eval_defs)

lemma once_segments_literature:
  "concat (map (segmentsOfKeyword Literature (js ''once upon a time'')) (KEYWORDS Literature)) =
     [\<lparr> segText = js ''once upon a time'', category = Literature, startIndex = 0, endIndex = 16 \<rparr>,
      \<lparr> segText = js ''once'', category = Literature, startIndex = 0, endIndex = 4 \<rparr>]"
  unfolding segments_keywordRegExp by (simp add: KEYWORDS_eval eval_defs mkSegment_def slice_def)

lemma once_segments_language:
  "concat (map (segmentsOfKeyword Language (js ''once upon a time'')) (KEYWORDS Language)) = []"
  unfolding segments_keywordRegExp by (simp add: KEYWORDS_eval eval_defs)

lemma once_located:
  "extractKeywordSegments (JString (js ''once upon a time'')) =
     Some [\<lparr> segText = js ''once upon a time'', category = Literature, startIndex = 0, endIndex = 16 \<rparr>,
           \<lparr> segText = js ''once'', category = Literature, startIndex = 0, endIndex = 4 \<rparr>]"
  by (simp add: extract_concat [OF once_not_blank] categories_def once_segments_science
      once_segments_social once_segments_literature once_segments_language)

lemma noel_not_blank: "\<not> blankTranscript (JString [0x4E, 0x6F, 0xEB, 0x6C])"
  by (simp add: blankTranscript_def trim_def isWhiteSpace_def)

lemma noel_segments:
  "concat (map (\<lambda>c. concat (map (segmentsOfKeyword c [0x4E, 0x6F, 0xEB, 0x6C]) (KEYWORDS c))) categories) =
     [\<lparr> segText = [0x4E, 0x6F], category = Social, startIndex = 0, endIndex = 2 \<rparr>]"
  unfolding segments_keywordRegExp categories_def
  by (simp add: KEYWORDS_eval eval_defs mkSegment_def slice_def)

lemma noel_count:
  "sum_list (map (countKeyword (toLowerCase [0x4E, 0x6F, 0xEB, 0x6C])) (KEYWORDS Social)) = 1"
  by (simp add: toLowerCase_def lowerUnit_def KEYWORDS_eval eval_defs)

lemma smart_not_blank: "\<not> blankTranscript (JString (js ''smart''))"
  by (simp add: blankTranscript_def trim_def isWhiteSpace_def js_def)

lemma smart_segments:
  "concat (map (\<lambda>c. concat (map (segmentsOfKeyword c (js ''smart'')) (KEYWORDS c))) categories) = []"
  unfolding segments_keywordRegExp categories_def
  by (simp add: KEYWORDS_eval eval_defs)

lemma smart_count:
  "sum_list (map (countKeyword (toLowerCase (js ''smart''))) (KEYWORDS c)) = 0"
  by (cases c) (simp_all add: toLowerCase_def lowerUnit_def KEYWORDS_eval eval_defs)

lemma smart_art: "js ''art'' \<in> set (KEYWORDS Literature)"
  by (simp add: KEYWORDS_eval js_def)

lemma lowered_match_sound:
  assumes "kw \<in> set (KEYWORDS c)" and "(j, e) \<in> set (matchFrom (keywordRegExp kw) u 0)"
  shows "j < e \<and> e \<le> length u \<and>
         \<not> (0 < j \<and> isWordChar (u ! (j - 1))) \<and> \<not> (e < length u \<and> isWordChar (u ! e)) \<and>
         phraseVariant kw (slice u j e)"
proof -
  from matchFrom_sound [OF assms(2)] have "matchAtoms (keywordRegExp kw) u j = Some e" by simp
  from keyword_match_variant [OF assms(1) this] keyword_match_bounded [OF assms]
  show ?thesis by simp
qed

lemma counts_are_segments:
  assumes "\<forall>u \<in> set s. u \<noteq> 0x130 \<and> u \<noteq> 0x212A"
  shows "\<exists>segs. extractKeywordSegments (JString s) = Some segs \<and>
           (\<forall>c. countOf (analyzeTranscript (JString s)) c =
                  length (filter (\<lambda>seg. category seg = c) segs))"
proof (cases "blankTranscript (JString s)")
  case True
  then show ?thesis by (simp add: blank_results countOf_zero)
next
  case False
  show ?thesis
    by (simp add: extract_concat [OF False] filter_category count_segments_agree [OF False assms]
        del: countOf.simps)
qed

lemma smart_located: "extractKeywordSegments (JString (js ''smart'')) = Some []"
  by (simp only: extract_concat [OF smart_not_blank] smart_segments)

lemma smart_counted: "countOf (analyzeTranscript (JString (js ''smart''))) c = 0"
  by (simp only: analyze_countOf [OF smart_not_blank] smart_count)

lemma answer_dot_located:
  "\<exists>segs. extractKeywordSegments (JString (js ''An answer.'')) = Some segs \<and>
     \<lparr> segText = js ''answer'', category = Science, startIndex = 3, endIndex = 9 \<rparr> \<in> set segs"
proof -
  have nb: "\<not> blankTranscript (JString (js ''An answer.''))"
    by (simp add: blankTranscript_def trim_def isWhiteSpace_def js_def)
  from answer_match have kw: "js ''answer'' \<in> set (KEYWORDS Science)"
    and m: "(3, 9) \<in> set (matchFrom (keywordRegExp (js ''answer'')) (js ''An answer.'') 0)"
    by simp_all
  from m escapedRegExp_plain [OF KEYWORDS_plain [OF kw]]
  have "(3, 9) \<in> set (matchFrom (escapedRegExp (js ''answer'')) (js ''An answer.'') 0)" by simp
  from segment_in_all [OF kw this]
  have "mkSegment Science (js ''An answer.'') (3, 9) \<in>
      set (concat (map (\<lambda>c'. concat (map (segmentsOfKeyword c' (js ''An answer.'')) (KEYWORDS c')))
             categories))" .
  moreover have "mkSegment Science (js ''An answer.'') (3, 9) =
      \<lparr> segText = js ''answer'', category = Science, startIndex = 3, endIndex = 9 \<rparr>"
    by (simp add: mkSegment_def slice_def js_def)
  ultimately show ?thesis by (simp add: extract_concat [OF nb])
qed

section \<open>Properties of the normalizer\<close>

lemma round_count: "round ((real n / maxPerCategory) * 100) = 5 * int n"
proof -
  have "(real n / maxPerCategory) * 100 = of_int (5 * int n)"
    by (simp add: maxPerCategory_def)
  then show ?thesis
    by (simp only: round_of_int)
qed

lemma score_closed: "min 100 (round ((real n / maxPerCategory) * 100)) = min 100 (5 * int n)"
  by (simp only: round_count)

lemma scoreOf_calculateScores:
  "scoreOf (calculateScores c) cat = min 100 (round ((real (countOf c cat) / maxPerCategory) * 100))"
  by (cases cat) (simp_all add: calculateScores_def)

text \<open>
  Claim C2.  For every counts object, the score of each category is
  \<open>min(100, round(count / 20 * 100))\<close> with the one constant 20 for all four categories;
  it is an integer between 0 and 100, it is 0 for the count 0, and it is 100 for every
  count from 20 on.
\<close>

theorem calculateScores_policy:
  "scoreOf (calculateScores c) cat = min 100 (round (real (countOf c cat) / 20 * 100)) \<and>
   0 \<le> scoreOf (calculateScores c) cat \<and> scoreOf (calculateScores c) cat \<le> 100 \<and>
   (countOf c cat = 0 \<longrightarrow> scoreOf (calculateScores c) cat = 0) \<and>
   (20 \<le> countOf c cat \<longrightarrow> scoreOf (calculateScores c) cat = 100)"
proof -
  have closed: "scoreOf (calculateScores c) cat = min 100 (5 * int (countOf c cat))"
    by (simp only: scoreOf_calculateScores score_closed)
  have formula: "scoreOf (calculateScores c) cat = min 100 (round (real (countOf c cat) / 20 * 100))"
    using scoreOf_calculateScores [of c cat] by (simp add: maxPerCategory_def)
  show ?thesis
    using closed formula by simp
qed

theorem calculateScores_policy_witness:
  "scoreOf (calculateScores \<lparr> science = 0, social = 7, literature = 20, language = 31 \<rparr>) Science = 0 \<and>
   scoreOf (calculateScores \<lparr> science = 0, social = 7, literature = 20, language = 31 \<rparr>) Social = 35 \<and>
   scoreOf (calculateScores \<lparr> science = 0, social = 7, literature = 20, language = 31 \<rparr>) Literature = 100 \<and>
   scoreOf (calculateScores \<lparr> science = 0, social = 7, literature = 20, language = 31 \<rparr>) Language = 100"
  using calculateScores_policy [of "\<lparr> science = 0, social = 7, literature = 20, language = 31 \<rparr>" Science]
    calculateScores_policy [of "\<lparr> science = 0, social = 7, literature = 20, language = 31 \<rparr>" Social]
    calculateScores_policy [of "\<lparr> science = 0, social = 7, literature = 20, language = 31 \<rparr>" Literature]
    calculateScores_policy [of "\<lparr> science = 0, social = 7, literature = 20, language = 31 \<rparr>" Language]
  by simp

text \<open>
  Claim C8.  The normalizer is monotone and saturating in each count: a larger count of a
  category never gives that category a smaller score, and a count of 20 or more gives the
  score 100.
\<close>

theorem calculateScores_monotone:
  "(countOf c cat \<le> countOf c' cat \<longrightarrow>
      scoreOf (calculateScores c) cat \<le> scoreOf (calculateScores c') cat) \<and>
   (20 \<le> countOf c cat \<longrightarrow> scoreOf (calculateScores c) cat = 100)"
  by (simp only: scoreOf_calculateScores score_closed) auto

theorem calculateScores_monotone_witness:
  "scoreOf (calculateScores \<lparr> science = 3, social = 0, literature = 0, language = 25 \<rparr>) Science
     \<le> scoreOf (calculateScores \<lparr> science = 4, social = 0, literature = 0, language = 25 \<rparr>) Science \<and>
   scoreOf (calculateScores \<lparr> science = 3, social = 0, literature = 0, language = 25 \<rparr>) Language = 100"
  using calculateScores_monotone [of "\<lparr> science = 3, social = 0, literature = 0, language = 25 \<rparr>" Science
      "\<lparr> science = 4, social = 0, literature = 0, language = 25 \<rparr>"]
    calculateScores_monotone [of "\<lparr> science = 3, social = 0, literature = 0, language = 25 \<rparr>" Language
      "\<lparr> science = 3, social = 0, literature = 0, language = 25 \<rparr>"]
  by simp

section \<open>Agreement of the counts with the segments\<close>

text \<open>
  Claim C9, as the code has it.  \<open>analyzeTranscript\<close> matches the lower-case copy of the
  transcript and \<open>extractKeywordSegments\<close> the transcript itself.  For every transcript that
  holds neither U+0130 nor the Kelvin sign U+212A (every ASCII transcript is one), and for
  every category, the count equals the number of segments of that category.  The escaping
  changes nothing, because no keyword of the taxonomy holds a syntax character.
\<close>

theorem counts_agree_with_segments:
  assumes "\<forall>u \<in> set t. u \<noteq> 0x130 \<and> u \<noteq> 0x212A"
  shows "\<exists>segs. extractKeywordSegments (JString t) = Some segs \<and>
           (\<forall>c. countOf (analyzeTranscript (JString t)) c =
                  length (filter (\<lambda>seg. category seg = c) segs))"
proof (cases "blankTranscript (JString t)")
  case True
  then show ?thesis by (simp add: blank_results countOf_zero)
next
  case False
  show ?thesis
    by (simp add: extract_concat [OF False] filter_category count_segments_agree [OF False assms]
        del: countOf.simps)
qed

theorem counts_agree_with_segments_witness:
  "\<exists>segs. extractKeywordSegments (JString (js ''Kind words'')) = Some segs \<and>
     (\<forall>c. countOf (analyzeTranscript (JString (js ''Kind words''))) c =
            length (filter (\<lambda>seg. category seg = c) segs))"
  using counts_agree_with_segments [of "js ''Kind words''"] by (simp add: js_def)

text \<open>
  The claim as stated fails: the lower-case form of the Kelvin sign is \<open>k\<close>, so the
  transcript made of the Kelvin sign and \<open>ind\<close> counts once for \<open>kind\<close> in the social
  category, while the pattern \<open>\bkind\b\<close> with the flag \<open>i\<close> does not match the transcript
  itself and no segment is found.
\<close>

theorem counts_differ_at_kelvin_sign:
  "extractKeywordSegments (JString [0x212A, 0x69, 0x6E, 0x64]) = Some [] \<and>
   countOf (analyzeTranscript (JString [0x212A, 0x69, 0x6E, 0x64])) Social = 1"
  by (simp add: extract_concat [OF kelvin_not_blank] kelvin_segments categories_def
      analyze_countOf [OF kelvin_not_blank] kelvin_count del: countOf.simps)

section \<open>Blank input\<close>

text \<open>
  Claim C4.  For every input that is the empty string, a string of white space only, or
  not a string, \<open>analyzeTranscript\<close> returns the counts that are all zero and
  \<open>extractKeywordSegments\<close> returns the empty array; both return, neither raises.
\<close>

theorem blank_input_yields_nothing:
  assumes "typeOf v \<noteq> ''string'' \<or> (\<exists>s. v = JString s \<and> list_all isWhiteSpace s)"
  shows "analyzeTranscript v = \<lparr> science = 0, social = 0, literature = 0, language = 0 \<rparr> \<and>
         extractKeywordSegments v = Some []"
proof -
  from assms have "blankTranscript v"
    by (auto simp: blank_cases trim_blank)
  then show ?thesis
    using blank_results [of v] by (simp add: zeroCounts_def)
qed

theorem blank_input_yields_nothing_witness:
  "analyzeTranscript (JString []) = \<lparr> science = 0, social = 0, literature = 0, language = 0 \<rparr> \<and>
   extractKeywordSegments (JString []) = Some [] \<and>
   analyzeTranscript (JString [0x20, 0x09, 0x0A, 0xA0]) = \<lparr> science = 0, social = 0, literature = 0, language = 0 \<rparr> \<and>
   extractKeywordSegments (JString [0x20, 0x09, 0x0A, 0xA0]) = Some [] \<and>
   analyzeTranscript JNull = \<lparr> science = 0, social = 0, literature = 0, language = 0 \<rparr> \<and>
   extractKeywordSegments JNull = Some [] \<and>
   analyzeTranscript (JNumber 42) = \<lparr> science = 0, social = 0, literature = 0, language = 0 \<rparr> \<and>
   extractKeywordSegments (JNumber 42) = Some []"
  using blank_input_yields_nothing [of "JString []"]
    blank_input_yields_nothing [of "JString [0x20, 0x09, 0x0A, 0xA0]"]
    blank_input_yields_nothing [of JNull]
    blank_input_yields_nothing [of "JNumber 42"]
  by (simp add: isWhiteSpace_def)

section \<open>Keywords listed twice\<close>

text \<open>
  Claim C10.  \<open>talk\<close>, \<open>say\<close> and \<open>tell\<close> are listed twice under language, \<open>magic\<close> twice
  under literature and \<open>light\<close> twice under science.  The count of a category is the sum
  over the entries of its list, so every match of a keyword counts once for each entry
  that lists it, and \<open>extractKeywordSegments\<close> holds one segment for each entry and match.
  The transcript \<open>talk\<close> holds one keyword once; its language count is 2 and it has two
  language segments.
\<close>

theorem duplicate_entries_count_twice:
  "count_list (KEYWORDS Language) (js ''talk'') = 2 \<and> count_list (KEYWORDS Language) (js ''say'') = 2 \<and>
   count_list (KEYWORDS Language) (js ''tell'') = 2 \<and> count_list (KEYWORDS Literature) (js ''magic'') = 2 \<and>
   count_list (KEYWORDS Science) (js ''light'') = 2 \<and>
   (\<not> blankTranscript (JString t) \<longrightarrow>
      countOf (analyzeTranscript (JString t)) c =
        sum_list (map (countKeyword (toLowerCase t)) (KEYWORDS c)) \<and>
      count_list (KEYWORDS c) kw * countKeyword (toLowerCase t) kw
        \<le> countOf (analyzeTranscript (JString t)) c \<and>
      (\<exists>segs. extractKeywordSegments (JString t) = Some segs \<and>
         (\<forall>m \<in> set (matchFrom (escapedRegExp kw) t 0).
            count_list (KEYWORDS c) kw \<le> count_list segs (mkSegment c t m)))) \<and>
   countOf (analyzeTranscript (JString (js ''talk''))) Language = 2 \<and>
   extractKeywordSegments (JString (js ''talk'')) =
     Some [\<lparr> segText = js ''talk'', category = Social, startIndex = 0, endIndex = 4 \<rparr>,
           \<lparr> segText = js ''talk'', category = Language, startIndex = 0, endIndex = 4 \<rparr>,
           \<lparr> segText = js ''talk'', category = Language, startIndex = 0, endIndex = 4 \<rparr>]"
proof -
  have general: "\<not> blankTranscript (JString t) \<longrightarrow>
      countOf (analyzeTranscript (JString t)) c =
        sum_list (map (countKeyword (toLowerCase t)) (KEYWORDS c)) \<and>
      count_list (KEYWORDS c) kw * countKeyword (toLowerCase t) kw
        \<le> countOf (analyzeTranscript (JString t)) c \<and>
      (\<exists>segs. extractKeywordSegments (JString t) = Some segs \<and>
         (\<forall>m \<in> set (matchFrom (escapedRegExp kw) t 0).
            count_list (KEYWORDS c) kw \<le> count_list segs (mkSegment c t m)))"
  proof
    assume nb: "\<not> blankTranscript (JString t)"
    have sum: "countOf (analyzeTranscript (JString t)) c =
        sum_list (map (countKeyword (toLowerCase t)) (KEYWORDS c))"
      by (rule analyze_countOf [OF nb])
    have ge: "count_list (KEYWORDS c) kw * countKeyword (toLowerCase t) kw
        \<le> countOf (analyzeTranscript (JString t)) c"
      by (rule count_ge_duplicates [OF nb])
    have segs: "\<exists>segs. extractKeywordSegments (JString t) = Some segs \<and>
         (\<forall>m \<in> set (matchFrom (escapedRegExp kw) t 0).
            count_list (KEYWORDS c) kw \<le> count_list segs (mkSegment c t m))"
      by (simp add: extract_concat [OF nb] count_list_all_segments)
    from sum ge segs show "countOf (analyzeTranscript (JString t)) c =
        sum_list (map (countKeyword (toLowerCase t)) (KEYWORDS c)) \<and>
      count_list (KEYWORDS c) kw * countKeyword (toLowerCase t) kw
        \<le> countOf (analyzeTranscript (JString t)) c \<and>
      (\<exists>segs. extractKeywordSegments (JString t) = Some segs \<and>
         (\<forall>m \<in> set (matchFrom (escapedRegExp kw) t 0).
            count_list (KEYWORDS c) kw \<le> count_list segs (mkSegment c t m)))"
      by (intro conjI)
  qed
  have talk: "countOf (analyzeTranscript (JString (js ''talk''))) Language = 2"
    by (simp only: analyze_countOf [OF talk_not_blank] talk_count)
  have segs: "extractKeywordSegments (JString (js ''talk'')) =
     Some [\<lparr> segText = js ''talk'', category = Social, startIndex = 0, endIndex = 4 \<rparr>,
           \<lparr> segText = js ''talk'', category = Language, startIndex = 0, endIndex = 4 \<rparr>,
           \<lparr> segText = js ''talk'', category = Language, startIndex = 0, endIndex = 4 \<rparr>]"
    by (simp only: extract_concat [OF talk_not_blank] talk_segments)
  from duplicate_entries general talk segs show ?thesis
    by (intro conjI) (elim conjE, assumption)+
qed

theorem duplicate_entries_count_twice_witness:
  "\<not> blankTranscript (JString (js ''talk'')) \<and>
   count_list (KEYWORDS Language) (js ''talk'') * countKeyword (toLowerCase (js ''talk'')) (js ''talk'')
     \<le> countOf (analyzeTranscript (JString (js ''talk''))) Language \<and>
   (\<exists>segs. extractKeywordSegments (JString (js ''talk'')) = Some segs \<and>
      (\<forall>m \<in> set (matchFrom (escapedRegExp (js ''talk'')) (js ''talk'') 0).
         count_list (KEYWORDS Language) (js ''talk'') \<le> count_list segs (mkSegment Language (js ''talk'') m)))"
  using duplicate_entries_count_twice [of "js ''talk''" Language "js ''talk''"] talk_not_blank
  by blast

section \<open>The segments of a transcript\<close>

text \<open>
  Claim C6.  For every transcript \<open>extractKeywordSegments\<close> returns one entry for each match
  of each entry of the keyword lists.  The entries come in the order of the loops: the
  categories in the order science, social, literature, language; within a category the
  keywords in the order of the list; within a keyword the matches by position, one after
  the end of the other.  The start and end of an entry are the indices of the match in the
  transcript as given, not in a lower-case copy, and the text is the transcript between
  them.  Nothing is removed: a match of a keyword that two categories list is an entry of
  both, as \<open>answer\<close> in \<open>An answer\<close> is for science, social and language.  Within one
  category the entries follow the keyword list before the position: in
  \<open>TEST data, test\<close> both matches of \<open>test\<close> precede the match of \<open>data\<close>.
\<close>

theorem locate_entries:
  "categories = [Science, Social, Literature, Language] \<and>
   (\<exists>segs. extractKeywordSegments (JString t) = Some segs \<and>
     (\<not> blankTranscript (JString t) \<longrightarrow>
        segs = concat (map (\<lambda>c. concat (map (\<lambda>kw. map (mkSegment c t) (matchFrom (escapedRegExp kw) t 0))
                                            (KEYWORDS c))) categories)) \<and>
     (\<forall>seg \<in> set segs. startIndex seg < endIndex seg \<and> endIndex seg \<le> length t \<and>
        segText seg = take (endIndex seg - startIndex seg) (drop (startIndex seg) t)) \<and>
     (\<not> blankTranscript (JString t) \<longrightarrow>
        (\<forall>c kw. \<forall>m \<in> set (matchFrom (escapedRegExp kw) t 0). kw \<in> set (KEYWORDS c) \<longrightarrow>
           mkSegment c t m \<in> set segs))) \<and>
   (\<forall>c kw. \<forall>m \<in> set (matchFrom (escapedRegExp kw) t 0). kw \<in> set (KEYWORDS c) \<longrightarrow>
      startIndex (mkSegment c t m) = fst m \<and> endIndex (mkSegment c t m) = snd m \<and>
      category (mkSegment c t m) = c) \<and>
   (\<forall>kw. sorted_wrt (\<lambda>a b. snd a \<le> fst b) (matchFrom (escapedRegExp kw) t 0)) \<and>
   extractKeywordSegments (JString (js ''An answer'')) =
     Some [\<lparr> segText = js ''answer'', category = Science, startIndex = 3, endIndex = 9 \<rparr>,
           \<lparr> segText = js ''answer'', category = Social, startIndex = 3, endIndex = 9 \<rparr>,
           \<lparr> segText = js ''answer'', category = Language, startIndex = 3, endIndex = 9 \<rparr>] \<and>
   (\<exists>segs. extractKeywordSegments (JString (js ''TEST data, test'')) = Some segs \<and>
      filter (\<lambda>seg. category seg = Science) segs =
        [\<lparr> segText = js ''TEST'', category = Science, startIndex = 0, endIndex = 4 \<rparr>,
         \<lparr> segText = js ''test'', category = Science, startIndex = 11, endIndex = 15 \<rparr>,
         \<lparr> segText = js ''data'', category = Science, startIndex = 5, endIndex = 9 \<rparr>])"
proof -
  have fields: "\<forall>c kw. \<forall>m \<in> set (matchFrom (escapedRegExp kw) t 0). kw \<in> set (KEYWORDS c) \<longrightarrow>
      startIndex (mkSegment c t m) = fst m \<and> endIndex (mkSegment c t m) = snd m \<and>
      category (mkSegment c t m) = c"
    using keyword_match_fields [OF KEYWORDS_nonempty] by blast
  have ordered: "\<forall>kw. sorted_wrt (\<lambda>a b. snd a \<le> fst b) (matchFrom (escapedRegExp kw) t 0)"
    by (simp add: matchFrom_ordered)
  have main: "\<exists>segs. extractKeywordSegments (JString t) = Some segs \<and>
     (\<not> blankTranscript (JString t) \<longrightarrow>
        segs = concat (map (\<lambda>c. concat (map (\<lambda>kw. map (mkSegment c t) (matchFrom (escapedRegExp kw) t 0))
                                            (KEYWORDS c))) categories)) \<and>
     (\<forall>seg \<in> set segs. startIndex seg < endIndex seg \<and> endIndex seg \<le> length t \<and>
        segText seg = take (endIndex seg - startIndex seg) (drop (startIndex seg) t)) \<and>
     (\<not> blankTranscript (JString t) \<longrightarrow>
        (\<forall>c kw. \<forall>m \<in> set (matchFrom (escapedRegExp kw) t 0). kw \<in> set (KEYWORDS c) \<longrightarrow>
           mkSegment c t m \<in> set segs))"
  proof (cases "blankTranscript (JString t)")
    case True
    then show ?thesis by (simp add: blank_results)
  next
    case False
    let ?all = "concat (map (\<lambda>c. concat (map (segmentsOfKeyword c t) (KEYWORDS c))) categories)"
    have a: "extractKeywordSegments (JString t) = Some ?all"
      by (rule extract_concat [OF False])
    have b: "\<forall>seg \<in> set ?all. startIndex seg < endIndex seg \<and> endIndex seg \<le> length t \<and>
        segText seg = take (endIndex seg - startIndex seg) (drop (startIndex seg) t)"
      using all_segments_fields by blast
    have c: "\<forall>c kw. \<forall>m \<in> set (matchFrom (escapedRegExp kw) t 0). kw \<in> set (KEYWORDS c) \<longrightarrow>
           mkSegment c t m \<in> set ?all"
      using segment_in_all by blast
    from a b c False all_segments_unfold [of t] show ?thesis by simp
  qed
  have answer: "extractKeywordSegments (JString (js ''An answer'')) =
     Some [\<lparr> segText = js ''answer'', category = Science, startIndex = 3, endIndex = 9 \<rparr>,
           \<lparr> segText = js ''answer'', category = Social, startIndex = 3, endIndex = 9 \<rparr>,
           \<lparr> segText = js ''answer'', category = Language, startIndex = 3, endIndex = 9 \<rparr>]"
    by (simp only: extract_concat [OF answer_not_blank] answer_segments)
  have test: "\<exists>segs. extractKeywordSegments (JString (js ''TEST data, test'')) = Some segs \<and>
      filter (\<lambda>seg. category seg = Science) segs =
        [\<lparr> segText = js ''TEST'', category = Science, startIndex = 0, endIndex = 4 \<rparr>,
         \<lparr> segText = js ''test'', category = Science, startIndex = 11, endIndex = 15 \<rparr>,
         \<lparr> segText = js ''data'', category = Science, startIndex = 5, endIndex = 9 \<rparr>]"
  proof (intro exI conjI)
    show "extractKeywordSegments (JString (js ''TEST data, test'')) =
        Some (concat (map (\<lambda>c. concat (map (segmentsOfKeyword c (js ''TEST data, test'')) (KEYWORDS c)))
                categories))"
      by (rule extract_concat [OF test_not_blank])
    show "filter (\<lambda>seg. category seg = Science)
        (concat (map (\<lambda>c. concat (map (segmentsOfKeyword c (js ''TEST data, test'')) (KEYWORDS c)))
                categories)) =
        [\<lparr> segText = js ''TEST'', category = Science, startIndex = 0, endIndex = 4 \<rparr>,
         \<lparr> segText = js ''test'', category = Science, startIndex = 11, endIndex = 15 \<rparr>,
         \<lparr> segText = js ''data'', category = Science, startIndex = 5, endIndex = 9 \<rparr>]"
      by (simp only: filter_category test_segments)
  qed
  from categories_def main fields ordered answer test show ?thesis
    by (intro conjI)
qed

theorem locate_entries_witness:
  "\<not> blankTranscript (JString (js ''An answer'')) \<and>
   js ''answer'' \<in> set (KEYWORDS Science) \<and> js ''answer'' \<in> set (KEYWORDS Language) \<and>
   (3, 9) \<in> set (matchFrom (escapedRegExp (js ''answer'')) (js ''An answer'') 0) \<and>
   (\<exists>segs. extractKeywordSegments (JString (js ''An answer'')) = Some segs \<and>
      mkSegment Science (js ''An answer'') (3, 9) \<in> set segs \<and>
      mkSegment Language (js ''An answer'') (3, 9) \<in> set segs \<and>
      (\<forall>seg \<in> set segs. startIndex seg < endIndex seg \<and> endIndex seg \<le> length (js ''An answer'')))"
proof -
  have sci: "js ''answer'' \<in> set (KEYWORDS Science)" and lan: "js ''answer'' \<in> set (KEYWORDS Language)"
    by (simp_all add: KEYWORDS_eval js_def)
  have m: "(3, 9) \<in> set (matchFrom (escapedRegExp (js ''answer'')) (js ''An answer'') 0)"
    by (simp add: eval_defs)
  from locate_entries [of "js ''An answer''"] answer_not_blank sci lan m show ?thesis
    by (elim conjE exE) blast
qed

section \<open>The pipeline of the controllers\<close>

text \<open>
  Claim C1.  When the classifier is called and throws an error, both controllers still
  answer with status 200: the error does not reach the caller, the final scores are the
  keyword scores, and \<open>classificationMethod\<close> is \<open>keyword-only\<close>.  An error is an object
  with a message; for a thrown null or undefined see \<open>classroomRagStep\<close>.
\<close>

theorem rag_failure_falls_back:
  assumes "ragEnabled e" and "trim t \<noteq> []"
    and "classifyWithSegments e t = Inl (ThrownObject msg)"
  shows "(\<exists>r. classroomWhisperController e (Some t) = Some (Inr r) \<and>
            classifierCalls r = [t] \<and>
            finalScores r = calculateScores (analyzeTranscript (JString t)) \<and>
            ragScores r = None \<and>
            classificationMethod r = ''keyword-only'') \<and>
         (\<exists>r. revaiController e (Some t) = Some (Inr r) \<and>
            classifierCalls r = [t] \<and>
            finalScores r = calculateScores (analyzeTranscript (JString t)) \<and>
            ragScores r = None \<and>
            classificationMethod r = ''keyword-only'')"
proof -
  obtain segs where "extractKeywordSegments (JString t) = Some segs"
    using extract_total by blast
  with assms trim_guard [of t] show ?thesis
    by (simp add: controller_defs)
qed

theorem rag_failure_falls_back_witness:
  "ragEnabled throwingEnv \<and> trim (js ''talk'') \<noteq> [] \<and>
   classifyWithSegments throwingEnv (js ''talk'') = Inl (ThrownObject (js ''unavailable'')) \<and>
   (\<exists>r. classroomWhisperController throwingEnv (Some (js ''talk'')) = Some (Inr r) \<and>
      classifierCalls r = [js ''talk''] \<and>
      finalScores r = calculateScores (analyzeTranscript (JString (js ''talk''))) \<and>
      ragScores r = None \<and>
      classificationMethod r = ''keyword-only'') \<and>
   (\<exists>r. revaiController throwingEnv (Some (js ''talk'')) = Some (Inr r) \<and>
      classifierCalls r = [js ''talk''] \<and>
      finalScores r = calculateScores (analyzeTranscript (JString (js ''talk''))) \<and>
      ragScores r = None \<and>
      classificationMethod r = ''keyword-only'')"
proof -
  have th: "classifyWithSegments throwingEnv (js ''talk'') = Inl (ThrownObject (js ''unavailable''))"
    by (simp add: throwingEnv_def)
  from rag_failure_falls_back [OF throwingEnv_enabled talk_trim th] throwingEnv_enabled talk_trim th
  show ?thesis by (intro conjI) (elim conjE, assumption)+
qed

text \<open>
  Claim C5.  The classifier is called only when \<open>RAG_ENABLED\<close> reads \<open>true\<close> and the
  transcript is not empty after trimming, and then once, with the transcript.  When one of
  the two fails the response is the keyword-only one.  The keyword counts and scores are
  computed in every run, also for the empty transcript, where they are all zero.
\<close>

theorem semantic_step_guard:
  "(\<not> (ragEnabled e \<and> trim t \<noteq> []) \<longrightarrow>
      (\<exists>r. classroomWhisperController e (Some t) = Some (Inr r) \<and> classifierCalls r = [] \<and>
         ragScores r = None \<and> finalScores r = calculateScores (analyzeTranscript (JString t)) \<and>
         classificationMethod r = ''keyword-only'') \<and>
      (\<exists>r. revaiController e (Some t) = Some (Inr r) \<and> classifierCalls r = [] \<and>
         ragScores r = None \<and> finalScores r = calculateScores (analyzeTranscript (JString t)) \<and>
         classificationMethod r = ''keyword-only'')) \<and>
   (ragEnabled e \<and> trim t \<noteq> [] \<and> classifyWithSegments e t \<noteq> Inl ThrownNullish \<longrightarrow>
      (\<exists>r. classroomWhisperController e (Some t) = Some (Inr r) \<and> classifierCalls r = [t]) \<and>
      (\<exists>r. revaiController e (Some t) = Some (Inr r) \<and> classifierCalls r = [t])) \<and>
   (\<forall>r. classroomWhisperController e (Some t) = Some (Inr r) \<or>
        revaiController e (Some t) = Some (Inr r) \<longrightarrow>
      keywordCounts r = analyzeTranscript (JString t) \<and>
      keywordScores r = calculateScores (analyzeTranscript (JString t)) \<and>
      classifierCalls r = (if ragEnabled e \<and> trim t \<noteq> [] then [t] else [])) \<and>
   (\<exists>r. classroomWhisperController e (Some []) = Some (Inr r) \<and> classifierCalls r = [] \<and>
      keywordCounts r = \<lparr> science = 0, social = 0, literature = 0, language = 0 \<rparr> \<and>
      finalScores r = \<lparr> scienceTalk = 0, socialTalk = 0, literatureTalk = 0, languageDevelopment = 0 \<rparr> \<and>
      classificationMethod r = ''keyword-only'') \<and>
   (\<exists>r. revaiController e (Some []) = Some (Inr r) \<and> classifierCalls r = [] \<and>
      keywordCounts r = \<lparr> science = 0, social = 0, literature = 0, language = 0 \<rparr> \<and>
      finalScores r = \<lparr> scienceTalk = 0, socialTalk = 0, literatureTalk = 0, languageDevelopment = 0 \<rparr> \<and>
      classificationMethod r = ''keyword-only'')"
proof -
  obtain segs where segs: "extractKeywordSegments (JString t) = Some segs"
    using extract_total by blast
  have empty: "analyzeTranscript (JString []) = zeroCounts" "extractKeywordSegments (JString []) = Some []"
    by (simp_all add: blank_results blankTranscript_def)
  have zero: "calculateScores zeroCounts =
      \<lparr> scienceTalk = 0, socialTalk = 0, literatureTalk = 0, languageDevelopment = 0 \<rparr>"
    by (simp add: calculateScores_def zeroCounts_def)
  have skipped: "\<not> (ragEnabled e \<and> trim t \<noteq> []) \<longrightarrow>
      (\<exists>r. classroomWhisperController e (Some t) = Some (Inr r) \<and> classifierCalls r = [] \<and>
         ragScores r = None \<and> finalScores r = calculateScores (analyzeTranscript (JString t)) \<and>
         classificationMethod r = ''keyword-only'') \<and>
      (\<exists>r. revaiController e (Some t) = Some (Inr r) \<and> classifierCalls r = [] \<and>
         ragScores r = None \<and> finalScores r = calculateScores (analyzeTranscript (JString t)) \<and>
         classificationMethod r = ''keyword-only'')"
    using segs trim_guard [of t] by (auto simp: controller_defs)
  have called: "ragEnabled e \<and> trim t \<noteq> [] \<and> classifyWithSegments e t \<noteq> Inl ThrownNullish \<longrightarrow>
      (\<exists>r. classroomWhisperController e (Some t) = Some (Inr r) \<and> classifierCalls r = [t]) \<and>
      (\<exists>r. revaiController e (Some t) = Some (Inr r) \<and> classifierCalls r = [t])"
    using segs trim_guard [of t]
    by (auto simp: controller_defs split: sum.splits thrown.splits option.splits list.splits)
  have always: "\<forall>r. classroomWhisperController e (Some t) = Some (Inr r) \<or>
        revaiController e (Some t) = Some (Inr r) \<longrightarrow>
      keywordCounts r = analyzeTranscript (JString t) \<and>
      keywordScores r = calculateScores (analyzeTranscript (JString t)) \<and>
      classifierCalls r = (if ragEnabled e \<and> trim t \<noteq> [] then [t] else [])"
    using segs trim_guard [of t]
    by (auto simp: controller_defs split: sum.splits thrown.splits option.splits list.splits if_splits)
  have e1: "\<exists>r. classroomWhisperController e (Some []) = Some (Inr r) \<and> classifierCalls r = [] \<and>
      keywordCounts r = \<lparr> science = 0, social = 0, literature = 0, language = 0 \<rparr> \<and>
      finalScores r = \<lparr> scienceTalk = 0, socialTalk = 0, literatureTalk = 0, languageDevelopment = 0 \<rparr> \<and>
      classificationMethod r = ''keyword-only''"
    by (simp add: controller_defs empty zero) (simp add: zeroCounts_def)
  have e2: "\<exists>r. revaiController e (Some []) = Some (Inr r) \<and> classifierCalls r = [] \<and>
      keywordCounts r = \<lparr> science = 0, social = 0, literature = 0, language = 0 \<rparr> \<and>
      finalScores r = \<lparr> scienceTalk = 0, socialTalk = 0, literatureTalk = 0, languageDevelopment = 0 \<rparr> \<and>
      classificationMethod r = ''keyword-only''"
    by (simp add: controller_defs empty zero) (simp add: zeroCounts_def)
  from skipped called always e1 e2 show ?thesis
    by (intro conjI)
qed

theorem semantic_step_guard_witness:
  "\<not> (ragEnabled disabledEnv \<and> trim (js ''talk'') \<noteq> []) \<and>
   (\<exists>r. classroomWhisperController disabledEnv (Some (js ''talk'')) = Some (Inr r) \<and>
      classifierCalls r = [] \<and> ragScores r = None \<and>
      finalScores r = calculateScores (analyzeTranscript (JString (js ''talk''))) \<and>
      classificationMethod r = ''keyword-only'') \<and>
   ragEnabled workingEnv \<and> trim (js ''talk'') \<noteq> [] \<and>
   classifyWithSegments workingEnv (js ''talk'') \<noteq> Inl ThrownNullish \<and>
   (\<exists>r. classroomWhisperController workingEnv (Some (js ''talk'')) = Some (Inr r) \<and>
      classifierCalls r = [js ''talk''] \<and>
      keywordCounts r = analyzeTranscript (JString (js ''talk'')))"
proof -
  have off: "\<not> (ragEnabled disabledEnv \<and> trim (js ''talk'') \<noteq> [])"
    by (simp add: disabledEnv_disabled)
  have ret: "classifyWithSegments workingEnv (js ''talk'') \<noteq> Inl ThrownNullish"
    by (simp add: workingEnv_returns)
  have a: "\<exists>r. classroomWhisperController disabledEnv (Some (js ''talk'')) = Some (Inr r) \<and>
      classifierCalls r = [] \<and> ragScores r = None \<and>
      finalScores r = calculateScores (analyzeTranscript (JString (js ''talk''))) \<and>
      classificationMethod r = ''keyword-only''"
    by (rule semantic_step_guard [of disabledEnv "js ''talk''", THEN conjunct1, THEN mp, OF off,
          THEN conjunct1])
  from semantic_step_guard [of workingEnv "js ''talk''"] workingEnv_enabled talk_trim ret
  have b: "\<exists>r. classroomWhisperController workingEnv (Some (js ''talk'')) = Some (Inr r) \<and>
      classifierCalls r = [js ''talk''] \<and>
      keywordCounts r = analyzeTranscript (JString (js ''talk''))"
    by blast
  from off a workingEnv_enabled talk_trim ret b show ?thesis
    by (intro conjI)
qed

text \<open>
  Claim C7.  The segments of the response are the segments of the classifier when it was
  called, returned, and gave at least one segment; in every other run that answers they
  are the segments that \<open>extractKeywordSegments\<close> finds in the same transcript.
\<close>

theorem evidence_segments:
  "(ragEnabled e \<and> trim t \<noteq> [] \<and> classifyWithSegments e t = Inr res \<and> segments res = Some (x # xs) \<longrightarrow>
      (\<exists>r. classroomWhisperController e (Some t) = Some (Inr r) \<and>
         ragSegments r = Some (map Inl (x # xs))) \<and>
      (\<exists>r. revaiController e (Some t) = Some (Inr r) \<and>
         ragSegments r = Some (map Inl (x # xs)))) \<and>
   (\<not> (ragEnabled e \<and> trim t \<noteq> [] \<and>
        (\<exists>res x xs. classifyWithSegments e t = Inr res \<and> segments res = Some (x # xs))) \<longrightarrow>
      (\<forall>r. classroomWhisperController e (Some t) = Some (Inr r) \<or>
           revaiController e (Some t) = Some (Inr r) \<longrightarrow>
         (\<exists>segs. extractKeywordSegments (JString t) = Some segs \<and>
            ragSegments r = Some (map Inr segs)))) \<and>
   (classifyWithSegments e t \<noteq> Inl ThrownNullish \<longrightarrow>
      (\<exists>r. classroomWhisperController e (Some t) = Some (Inr r)) \<and>
      (\<exists>r. revaiController e (Some t) = Some (Inr r))) \<and>
   (\<exists>r. classroomWhisperController e None = Some (Inr r) \<and> ragSegments r = Some [])"
proof -
  obtain segs where segs: "extractKeywordSegments (JString t) = Some segs"
    using extract_total by blast
  have empty: "extractKeywordSegments (JString []) = Some []"
    by (simp add: blank_results blankTranscript_def)
  have semantic: "ragEnabled e \<and> trim t \<noteq> [] \<and> classifyWithSegments e t = Inr res \<and>
      segments res = Some (x # xs) \<longrightarrow>
      (\<exists>r. classroomWhisperController e (Some t) = Some (Inr r) \<and>
         ragSegments r = Some (map Inl (x # xs))) \<and>
      (\<exists>r. revaiController e (Some t) = Some (Inr r) \<and>
         ragSegments r = Some (map Inl (x # xs)))"
    using trim_guard [of t] by (auto simp: controller_defs)
  have lexical: "\<not> (ragEnabled e \<and> trim t \<noteq> [] \<and>
        (\<exists>res x xs. classifyWithSegments e t = Inr res \<and> segments res = Some (x # xs))) \<longrightarrow>
      (\<forall>r. classroomWhisperController e (Some t) = Some (Inr r) \<or>
           revaiController e (Some t) = Some (Inr r) \<longrightarrow>
         (\<exists>segs. extractKeywordSegments (JString t) = Some segs \<and>
            ragSegments r = Some (map Inr segs)))"
    using segs trim_guard [of t]
    by (auto simp: controller_defs no_cons_iff
        split: sum.splits thrown.splits option.splits list.splits if_splits)
  have returns: "classifyWithSegments e t \<noteq> Inl ThrownNullish \<longrightarrow>
      (\<exists>r. classroomWhisperController e (Some t) = Some (Inr r)) \<and>
      (\<exists>r. revaiController e (Some t) = Some (Inr r))"
    using segs
    by (auto simp: controller_defs split: sum.splits thrown.splits option.splits list.splits)
  have none: "\<exists>r. classroomWhisperController e None = Some (Inr r) \<and> ragSegments r = Some []"
    by (simp add: controller_defs empty)
  from semantic lexical returns none show ?thesis
    by (intro conjI)
qed

theorem evidence_segments_witness:
  "ragEnabled workingEnv \<and> trim (js ''talk'') \<noteq> [] \<and>
   classifyWithSegments workingEnv (js ''talk'') = Inr \<lparr> scores = Some (), segments = Some [()] \<rparr> \<and>
   (\<exists>r. classroomWhisperController workingEnv (Some (js ''talk'')) = Some (Inr r) \<and>
      ragSegments r = Some [Inl ()]) \<and>
   \<not> (ragEnabled disabledEnv \<and> trim (js ''talk'') \<noteq> [] \<and>
      (\<exists>res x xs. classifyWithSegments disabledEnv (js ''talk'') = Inr res \<and>
         segments res = Some (x # xs))) \<and>
   (\<exists>r segs. revaiController disabledEnv (Some (js ''talk'')) = Some (Inr r) \<and>
      extractKeywordSegments (JString (js ''talk'')) = Some segs \<and>
      ragSegments r = Some (map Inr segs))"
proof -
  have seg: "segments \<lparr> scores = Some (), segments = Some [()] \<rparr> = Some (() # [])"
    by simp
  from evidence_segments [of workingEnv "js ''talk''" "\<lparr> scores = Some (), segments = Some [()] \<rparr>" "()" "[]"]
    workingEnv_enabled talk_trim workingEnv_returns [of "js ''talk''"] seg
  have a: "\<exists>r. classroomWhisperController workingEnv (Some (js ''talk'')) = Some (Inr r) \<and>
      ragSegments r = Some [Inl ()]"
    by simp
  have off: "\<not> (ragEnabled disabledEnv \<and> trim (js ''talk'') \<noteq> [] \<and>
      (\<exists>res x xs. classifyWithSegments disabledEnv (js ''talk'') = Inr res \<and>
         segments res = Some (x # xs)))"
    by (simp add: disabledEnv_disabled)
  have ret: "classifyWithSegments disabledEnv (js ''talk'') \<noteq> Inl ThrownNullish"
    by (simp add: disabledEnv_def)
  from evidence_segments [of disabledEnv "js ''talk''"] off ret
  have b: "\<exists>r segs. revaiController disabledEnv (Some (js ''talk'')) = Some (Inr r) \<and>
      extractKeywordSegments (JString (js ''talk'')) = Some segs \<and>
      ragSegments r = Some (map Inr segs)"
    by blast
  from workingEnv_enabled talk_trim workingEnv_returns [of "js ''talk''"] a off b show ?thesis
    by (intro conjI)
qed

section \<open>Case and word boundaries\<close>

text \<open>
  Claim C3, as the code has it.  Matching ignores the case of the ASCII letters: two
  transcripts that differ only there have the same counts and segments at the same places.
  A word character is an ASCII letter, a digit or the underscore.  Every segment that
  \<open>extractKeywordSegments\<close> returns, and every match that \<open>analyzeTranscript\<close> counts, is
  not empty, is a keyword of its category up to the case of its letters and the length of
  its runs of white space, and has no word character right before it and none right after
  it: \<open>the cat sat\<close> has no match of \<open>at\<close>, and \<open>smart\<close> has neither a segment nor a count
  although \<open>art\<close> is a keyword.  A phrase of the taxonomy written with runs of white space
  of any length and kind is found as one segment from its first to its last unit, and is
  found as well between units that are no word characters.  Each entry of a list is matched
  on its own: in \<open>once upon a time\<close> the entry \<open>once\<close> matches next to the phrase, so there
  are two literature segments and the literature count is 2.
\<close>

theorem keyword_matching_ascii_bounded:
  "(map lowerAscii t = map lowerAscii t' \<longrightarrow>
      analyzeTranscript (JString t) = analyzeTranscript (JString t') \<and>
      (\<exists>segs segs'. extractKeywordSegments (JString t) = Some segs \<and>
         extractKeywordSegments (JString t') = Some segs' \<and>
         map placeOf segs = map placeOf segs')) \<and>
   (\<forall>segs. extractKeywordSegments (JString s) = Some segs \<longrightarrow>
      (\<forall>seg \<in> set segs.
         startIndex seg < endIndex seg \<and> endIndex seg \<le> length s \<and>
         segText seg = slice s (startIndex seg) (endIndex seg) \<and>
         \<not> (0 < startIndex seg \<and> isWordChar (s ! (startIndex seg - 1))) \<and>
         \<not> (endIndex seg < length s \<and> isWordChar (s ! endIndex seg)) \<and>
         (\<exists>kw \<in> set (KEYWORDS (category seg)). phraseVariant kw (segText seg)))) \<and>
   ((\<forall>u \<in> set s. u \<noteq> 0x130 \<and> u \<noteq> 0x212A) \<longrightarrow>
      (\<exists>segs. extractKeywordSegments (JString s) = Some segs \<and>
         (\<forall>c. countOf (analyzeTranscript (JString s)) c =
                length (filter (\<lambda>seg. category seg = c) segs)))) \<and>
   (\<not> blankTranscript (JString s) \<longrightarrow>
      (\<forall>c. countOf (analyzeTranscript (JString s)) c =
         sum_list (map (\<lambda>kw. length (matchFrom (keywordRegExp kw) (toLowerCase s) 0)) (KEYWORDS c)))) \<and>
   (\<forall>c kw j e. kw \<in> set (KEYWORDS c) \<and>
        (j, e) \<in> set (matchFrom (keywordRegExp kw) (toLowerCase s) 0) \<longrightarrow>
      j < e \<and> e \<le> length (toLowerCase s) \<and>
      \<not> (0 < j \<and> isWordChar (toLowerCase s ! (j - 1))) \<and>
      \<not> (e < length (toLowerCase s) \<and> isWordChar (toLowerCase s ! e)) \<and>
      phraseVariant kw (slice (toLowerCase s) j e)) \<and>
   (\<forall>c kw tx. kw \<in> set (KEYWORDS c) \<and> includesSpace kw \<and> phraseVariant kw tx \<longrightarrow>
      (\<exists>segs. extractKeywordSegments (JString tx) = Some segs \<and>
         \<lparr> segText = tx, category = c, startIndex = 0, endIndex = length tx \<rparr> \<in> set segs) \<and>
      1 \<le> countOf (analyzeTranscript (JString tx)) c) \<and>
   (\<forall>c kw tx us vs. kw \<in> set (KEYWORDS c) \<and> includesSpace kw \<and> phraseVariant kw tx \<and>
        (us = [] \<or> \<not> isWordChar (last us)) \<and> (vs = [] \<or> \<not> isWordChar (hd vs)) \<longrightarrow>
      (\<exists>segs. extractKeywordSegments (JString (us @ tx @ vs)) = Some segs \<and>
         (\<exists>seg \<in> set segs. category seg = c \<and> startIndex seg \<le> length us \<and>
            phraseVariant kw (segText seg)))) \<and>
   countKeyword (toLowerCase (js ''the cat sat'')) (js ''at'') = 0 \<and>
   (\<forall>c. execLoop (escapedRegExp (js ''at'')) c (js ''the cat sat'') 0 [] = Some []) \<and>
   js ''art'' \<in> set (KEYWORDS Literature) \<and>
   extractKeywordSegments (JString (js ''smart'')) = Some [] \<and>
   (\<forall>c. countOf (analyzeTranscript (JString (js ''smart''))) c = 0) \<and>
   extractKeywordSegments (JString (js ''once upon a time'')) =
     Some [\<lparr> segText = js ''once upon a time'', category = Literature, startIndex = 0, endIndex = 16 \<rparr>,
           \<lparr> segText = js ''once'', category = Literature, startIndex = 0, endIndex = 4 \<rparr>] \<and>
   countOf (analyzeTranscript (JString (js ''once upon a time''))) Literature = 2"
proof -
  have insensitive: "map lowerAscii t = map lowerAscii t' \<longrightarrow>
      analyzeTranscript (JString t) = analyzeTranscript (JString t') \<and>
      (\<exists>segs segs'. extractKeywordSegments (JString t) = Some segs \<and>
         extractKeywordSegments (JString t') = Some segs' \<and>
         map placeOf segs = map placeOf segs')"
    using analyze_same extract_same by blast
  have located: "\<forall>segs. extractKeywordSegments (JString s) = Some segs \<longrightarrow>
      (\<forall>seg \<in> set segs.
         startIndex seg < endIndex seg \<and> endIndex seg \<le> length s \<and>
         segText seg = slice s (startIndex seg) (endIndex seg) \<and>
         \<not> (0 < startIndex seg \<and> isWordChar (s ! (startIndex seg - 1))) \<and>
         \<not> (endIndex seg < length s \<and> isWordChar (s ! endIndex seg)) \<and>
         (\<exists>kw \<in> set (KEYWORDS (category seg)). phraseVariant kw (segText seg)))"
    using extract_sound by blast
  have tied: "(\<forall>u \<in> set s. u \<noteq> 0x130 \<and> u \<noteq> 0x212A) \<longrightarrow>
      (\<exists>segs. extractKeywordSegments (JString s) = Some segs \<and>
         (\<forall>c. countOf (analyzeTranscript (JString s)) c =
                length (filter (\<lambda>seg. category seg = c) segs)))"
    using counts_are_segments by blast
  have counted: "\<not> blankTranscript (JString s) \<longrightarrow>
      (\<forall>c. countOf (analyzeTranscript (JString s)) c =
         sum_list (map (\<lambda>kw. length (matchFrom (keywordRegExp kw) (toLowerCase s) 0)) (KEYWORDS c)))"
    using count_by_matches by blast
  have lowered: "\<forall>c kw j e. kw \<in> set (KEYWORDS c) \<and>
        (j, e) \<in> set (matchFrom (keywordRegExp kw) (toLowerCase s) 0) \<longrightarrow>
      j < e \<and> e \<le> length (toLowerCase s) \<and>
      \<not> (0 < j \<and> isWordChar (toLowerCase s ! (j - 1))) \<and>
      \<not> (e < length (toLowerCase s) \<and> isWordChar (toLowerCase s ! e)) \<and>
      phraseVariant kw (slice (toLowerCase s) j e)"
    using lowered_match_sound by blast
  have whole: "\<forall>c kw tx. kw \<in> set (KEYWORDS c) \<and> includesSpace kw \<and> phraseVariant kw tx \<longrightarrow>
      (\<exists>segs. extractKeywordSegments (JString tx) = Some segs \<and>
         \<lparr> segText = tx, category = c, startIndex = 0, endIndex = length tx \<rparr> \<in> set segs) \<and>
      1 \<le> countOf (analyzeTranscript (JString tx)) c"
    using phrase_located phrase_counted by blast
  have inside: "\<forall>c kw tx us vs. kw \<in> set (KEYWORDS c) \<and> includesSpace kw \<and> phraseVariant kw tx \<and>
        (us = [] \<or> \<not> isWordChar (last us)) \<and> (vs = [] \<or> \<not> isWordChar (hd vs)) \<longrightarrow>
      (\<exists>segs. extractKeywordSegments (JString (us @ tx @ vs)) = Some segs \<and>
         (\<exists>seg \<in> set segs. category seg = c \<and> startIndex seg \<le> length us \<and>
            phraseVariant kw (segText seg)))"
    using phrase_found by blast
  have cat: "\<forall>c. execLoop (escapedRegExp (js ''at'')) c (js ''the cat sat'') 0 [] = Some []"
    using cat_sat_segments by blast
  have smart: "\<forall>c. countOf (analyzeTranscript (JString (js ''smart''))) c = 0"
    using smart_counted by blast
  have once: "countOf (analyzeTranscript (JString (js ''once upon a time''))) Literature = 2"
    by (simp only: analyze_countOf [OF once_not_blank] once_count)
  from insensitive located tied counted lowered whole inside cat_sat_count cat smart_art
    smart_located smart once_located once
  show ?thesis by (intro conjI)
qed

theorem keyword_matching_ascii_bounded_witness:
  "map lowerAscii (js ''Talk'') = map lowerAscii (js ''tALK'') \<and>
   analyzeTranscript (JString (js ''Talk'')) = analyzeTranscript (JString (js ''tALK'')) \<and>
   (\<exists>segs. extractKeywordSegments (JString (js ''An answer.'')) = Some segs \<and>
      \<lparr> segText = js ''answer'', category = Science, startIndex = 3, endIndex = 9 \<rparr> \<in> set segs \<and>
      \<not> (0 < (3 :: nat) \<and> isWordChar (js ''An answer.'' ! (3 - 1))) \<and>
      \<not> (9 < length (js ''An answer.'') \<and> isWordChar (js ''An answer.'' ! 9))) \<and>
   js ''once upon a time'' \<in> set (KEYWORDS Literature) \<and> includesSpace (js ''once upon a time'') \<and>
   phraseVariant (js ''once upon a time'')
     (js ''Once'' @ [0x09, 0x0A] @ js ''UPON'' @ js ''   '' @ js ''a'' @ [0xA0] @ js ''time'') \<and>
   (\<exists>segs. extractKeywordSegments
        (JString (js ''Once'' @ [0x09, 0x0A] @ js ''UPON'' @ js ''   '' @ js ''a'' @ [0xA0] @ js ''time'')) =
        Some segs \<and>
      \<lparr> segText = js ''Once'' @ [0x09, 0x0A] @ js ''UPON'' @ js ''   '' @ js ''a'' @ [0xA0] @ js ''time'',
        category = Literature, startIndex = 0,
        endIndex = length (js ''Once'' @ [0x09, 0x0A] @ js ''UPON'' @ js ''   '' @ js ''a'' @ [0xA0] @ js ''time'') \<rparr>
        \<in> set segs) \<and>
   1 \<le> countOf (analyzeTranscript
        (JString (js ''Once'' @ [0x09, 0x0A] @ js ''UPON'' @ js ''   '' @ js ''a'' @ [0xA0] @ js ''time'')))
        Literature"
proof -
  note T = keyword_matching_ascii_bounded [of "js ''Talk''" "js ''tALK''" "js ''An answer.''"]
  from T talk_cases
  have a: "analyzeTranscript (JString (js ''Talk'')) = analyzeTranscript (JString (js ''tALK''))"
    by blast
  from answer_dot_located obtain segs
    where ex: "extractKeywordSegments (JString (js ''An answer.'')) = Some segs"
      and mem: "\<lparr> segText = js ''answer'', category = Science, startIndex = 3, endIndex = 9 \<rparr> \<in> set segs"
    by blast
  from T ex have "\<forall>seg \<in> set segs.
         startIndex seg < endIndex seg \<and> endIndex seg \<le> length (js ''An answer.'') \<and>
         segText seg = slice (js ''An answer.'') (startIndex seg) (endIndex seg) \<and>
         \<not> (0 < startIndex seg \<and> isWordChar (js ''An answer.'' ! (startIndex seg - 1))) \<and>
         \<not> (endIndex seg < length (js ''An answer.'') \<and> isWordChar (js ''An answer.'' ! endIndex seg)) \<and>
         (\<exists>kw \<in> set (KEYWORDS (category seg)). phraseVariant kw (segText seg))"
    by blast
  from bspec [OF this mem]
  have "\<not> (0 < (3 :: nat) \<and> isWordChar (js ''An answer.'' ! (3 - 1))) \<and>
      \<not> (9 < length (js ''An answer.'') \<and> isWordChar (js ''An answer.'' ! 9))"
    by simp
  with ex mem
  have b: "\<exists>segs. extractKeywordSegments (JString (js ''An answer.'')) = Some segs \<and>
      \<lparr> segText = js ''answer'', category = Science, startIndex = 3, endIndex = 9 \<rparr> \<in> set segs \<and>
      \<not> (0 < (3 :: nat) \<and> isWordChar (js ''An answer.'' ! (3 - 1))) \<and>
      \<not> (9 < length (js ''An answer.'') \<and> isWordChar (js ''An answer.'' ! 9))"
    by blast
  from T once_variant
  have c: "(\<exists>segs. extractKeywordSegments
        (JString (js ''Once'' @ [0x09, 0x0A] @ js ''UPON'' @ js ''   '' @ js ''a'' @ [0xA0] @ js ''time'')) =
        Some segs \<and>
      \<lparr> segText = js ''Once'' @ [0x09, 0x0A] @ js ''UPON'' @ js ''   '' @ js ''a'' @ [0xA0] @ js ''time'',
        category = Literature, startIndex = 0,
        endIndex = length (js ''Once'' @ [0x09, 0x0A] @ js ''UPON'' @ js ''   '' @ js ''a'' @ [0xA0] @ js ''time'') \<rparr>
        \<in> set segs) \<and>
   1 \<le> countOf (analyzeTranscript
        (JString (js ''Once'' @ [0x09, 0x0A] @ js ''UPON'' @ js ''   '' @ js ''a'' @ [0xA0] @ js ''time'')))
        Literature"
    by blast
  from talk_cases a b once_variant c show ?thesis
    by (intro conjI) (elim conjE, assumption)+
qed

text \<open>
  The claim as stated fails twice.  The transcript \<open>once upon a time\<close> is not one match:
  the phrase and the entry \<open>once\<close> both match, with two segments and the count 2.  And a
  keyword does match inside a longer word when the letter next to it is not an ASCII one:
  in the word made of \<open>No\<close>, U+00EB and \<open>l\<close> the keyword \<open>no\<close> matches, with one social
  segment and the social count 1.
\<close>

theorem phrase_and_word_counterexample:
  "extractKeywordSegments (JString (js ''once upon a time'')) =
     Some [\<lparr> segText = js ''once upon a time'', category = Literature, startIndex = 0, endIndex = 16 \<rparr>,
           \<lparr> segText = js ''once'', category = Literature, startIndex = 0, endIndex = 4 \<rparr>] \<and>
   countOf (analyzeTranscript (JString (js ''once upon a time''))) Literature = 2 \<and>
   extractKeywordSegments (JString [0x4E, 0x6F, 0xEB, 0x6C]) =
     Some [\<lparr> segText = [0x4E, 0x6F], category = Social, startIndex = 0, endIndex = 2 \<rparr>] \<and>
   countOf (analyzeTranscript (JString [0x4E, 0x6F, 0xEB, 0x6C])) Social = 1"
proof -
  have a: "countOf (analyzeTranscript (JString (js ''once upon a time''))) Literature = 2"
    by (simp only: analyze_countOf [OF once_not_blank] once_count)
  have b: "extractKeywordSegments (JString [0x4E, 0x6F, 0xEB, 0x6C]) =
     Some [\<lparr> segText = [0x4E, 0x6F], category = Social, startIndex = 0, endIndex = 2 \<rparr>]"
    by (simp only: extract_concat [OF noel_not_blank] noel_segments)
  have c: "countOf (analyzeTranscript (JString [0x4E, 0x6F, 0xEB, 0x6C])) Social = 1"
    by (simp only: analyze_countOf [OF noel_not_blank] noel_count)
  from once_located a b c show ?thesis by (intro conjI)
qed

end
